theory Spec2Isabelle
  imports Main "HOL-Library.Word"
begin

unbundle bit_operations_syntax

section \<open>StegCrypt: carriers and capacity analysis\<close>

text \<open>
  Bytes of a \<open>Uint8Array\<close> / \<open>Uint8ClampedArray\<close> are 8-bit words, samples of an
  \<open>Int16Array\<close> are 16-bit words. JavaScript numbers that hold sizes, counts and
  bit patterns below \<open>2 ^ 31\<close> are integers (\<open>nat\<close> where they cannot be negative,
  \<open>int\<close> where the source subtracts).
\<close>

type_synonym byte = "8 word"

record ImageData =
  width :: nat
  height :: nat
  data :: "byte list"

record CarrierAnalysis =
  ca_width :: nat
  ca_height :: nat
  ca_channels :: nat
  ca_maxCapacityBytes :: int
  ca_format :: string

text \<open>\<open>steganography.ts\<close>, \<open>analyzeImageCapacity\<close>.\<close>

definition analyzeImageCapacity :: "ImageData \<Rightarrow> nat \<Rightarrow> CarrierAnalysis" where
  "analyzeImageCapacity imageData lsbDepth =
     (let usablePixels = width imageData * height imageData;
          bitsPerPixel = 3 * lsbDepth;
          maxCapacityBits = usablePixels * bitsPerPixel;
          maxCapacityBytes = int (maxCapacityBits div 8) - 8
      in \<lparr> ca_width = width imageData, ca_height = height imageData, ca_channels = 3,
           ca_maxCapacityBytes = max 0 maxCapacityBytes, ca_format = ''PNG'' \<rparr>)"

record WavData =
  samples :: "16 word list"
  sampleRate :: nat
  channels :: nat
  bitsPerSample :: nat

text \<open>
  \<open>wav-codec.ts\<close>, \<open>analyzeWavCapacity\<close>. The \<open>duration\<close> field of the result is a
  floating-point quotient that nothing below reads; it is left out of the record.
\<close>

record AudioAnalysis =
  aa_sampleRate :: nat
  aa_channels :: nat
  aa_samples :: nat
  aa_maxCapacityBytes :: int
  aa_format :: string

definition analyzeWavCapacity :: "WavData \<Rightarrow> nat \<Rightarrow> AudioAnalysis" where
  "analyzeWavCapacity wavData lsbDepth =
     (let totalSamples = length (samples wavData);
          bitsPerSample = lsbDepth;
          maxCapacityBits = totalSamples * bitsPerSample;
          maxCapacityBytes = int (maxCapacityBits div 8) - 8
      in \<lparr> aa_sampleRate = sampleRate wavData, aa_channels = channels wavData,
           aa_samples = totalSamples, aa_maxCapacityBytes = max 0 maxCapacityBytes,
           aa_format = ''WAV'' \<rparr>)"

section \<open>LSB depth policy\<close>

datatype Platform = desktop | mobile

record DepthResult =
  dr_depth :: int
  dr_forced :: bool
  dr_message :: "string option"

definition lsbDepthWarning :: string where
  "lsbDepthWarning = ''LSB depth > 2 is not recommended''"

definition mobileLsbForced :: string where
  "mobileLsbForced = ''LSB depth is fixed to 1 on mobile devices for optimal performance.''"

text \<open>
  \<open>file-validator.ts\<close>, \<open>getLsbDepthForPlatform\<close>. The platform is passed explicitly
  (the source falls back to \<open>getPlatform()\<close> only when it is omitted). The requested
  depth is an integer, as \<open>parseInt\<close> of the depth selector yields.
\<close>

definition getLsbDepthForPlatform :: "int \<Rightarrow> bool \<Rightarrow> Platform \<Rightarrow> DepthResult" where
  "getLsbDepthForPlatform requestedDepth isExpertMode currentPlatform =
     (if currentPlatform = mobile then
        \<lparr> dr_depth = 1, dr_forced = True, dr_message = Some mobileLsbForced \<rparr>
      else if \<not> isExpertMode then
        \<lparr> dr_depth = 1, dr_forced = True, dr_message = None \<rparr>
      else
        (let d = max 1 (min 4 requestedDepth)
         in if d > 2 then \<lparr> dr_depth = d, dr_forced = False, dr_message = Some lsbDepthWarning \<rparr>
            else \<lparr> dr_depth = d, dr_forced = False, dr_message = None \<rparr>))"

section \<open>The LSB bit-stream engine\<close>

text \<open>
  The engines throw \<open>Error("Payload too large. Need n bits, have m")\<close> when the
  framed message does not fit (the spec's CapacityExceeded); the constructor keeps the
  two numbers of the message.
\<close>

datatype steg_error = PayloadTooLarge nat nat

definition MAGIC_HEADER :: "byte list" where
  "MAGIC_HEADER = [0x53, 0x54, 0x45, 0x47]"

text \<open>
  The loop \<open>for (bit = n - 1; bit >= 0; bit--) push((value >> bit) & 1)\<close>, used with
  \<open>n = lsbDepth\<close> on a channel or sample and with \<open>n = 8\<close> on a message byte. The
  first argument is the number of iterations left, \<open>bit + 1\<close> (written \<open>Suc b\<close>).
\<close>

fun lsb_bits :: "nat \<Rightarrow> int \<Rightarrow> int list" where
  "lsb_bits 0 v = []"
| "lsb_bits (Suc b) v = (drop_bit b v AND 1) # lsb_bits b v"

text \<open>
  Reading index \<open>i\<close> of the JavaScript array of extracted bits: an index past the end
  yields \<open>undefined\<close>, which \<open>undefined << k\<close> turns into 0.
\<close>

definition bit_at :: "int list \<Rightarrow> nat \<Rightarrow> int" where
  "bit_at bits i = (if i < length bits then bits ! i else 0)"

text \<open>
  \<open>let byte = 0; for (j = 0; j < 8; j++) byte |= bits[start + j] << (7 - j)\<close>, and the
  variant of the payload loops that skips indices past the end of the bit array.
\<close>

definition read_byte :: "int list \<Rightarrow> nat \<Rightarrow> int" where
  "read_byte bits start =
     foldl (\<lambda>byte bitIdx. byte OR push_bit (7 - bitIdx) (bit_at bits (start + bitIdx))) 0 [0..<8]"

definition read_byte_guarded :: "int list \<Rightarrow> nat \<Rightarrow> int" where
  "read_byte_guarded bits start =
     foldl (\<lambda>byte bitIdx.
              if start + bitIdx < length bits
              then byte OR push_bit (7 - bitIdx) (bits ! (start + bitIdx)) else byte) 0 [0..<8]"

subsection \<open>Image engine (\<open>steganography.ts\<close>)\<close>

text \<open>
  The framed message of \<open>embedData\<close>: magic, then the length written with
  \<open>(len >> 24) & 0xFF\<close>, ..., \<open>len & 0xFF\<close> into a \<open>Uint8Array\<close>, then the payload.
\<close>

definition image_message :: "byte list \<Rightarrow> byte list" where
  "image_message payloadBytes =
     (let len = int (length payloadBytes)
      in MAGIC_HEADER
         @ [word_of_int (drop_bit 24 len AND 0xFF), word_of_int (drop_bit 16 len AND 0xFF),
            word_of_int (drop_bit 8 len AND 0xFF), word_of_int (len AND 0xFF)]
         @ payloadBytes)"

text \<open>\<open>(message[Math.floor(bitIndex / 8)] >> (7 - bitIndex % 8)) & 1\<close>.\<close>

definition message_bit :: "byte list \<Rightarrow> nat \<Rightarrow> int" where
  "message_bit message bitIndex =
     (let byteIndex = bitIndex div 8; bitPosition = 7 - bitIndex mod 8
      in drop_bit bitPosition (uint (message ! byteIndex)) AND 1)"

text \<open>
  The innermost loop of \<open>embedData\<close>,
  \<open>for (bit = lsbDepth - 1; bit >= 0 && bitIndex < totalBitsToEmbed; bit--)\<close>; the
  second argument is \<open>bit + 1\<close>, and \<open>totalBitsToEmbed = 8 * message.length\<close>.
\<close>

fun set_lsb_bits :: "byte list \<Rightarrow> nat \<Rightarrow> int \<Rightarrow> nat \<Rightarrow> int \<times> nat" where
  "set_lsb_bits message 0 pixelValue bitIndex = (pixelValue, bitIndex)"
| "set_lsb_bits message (Suc b) pixelValue bitIndex =
     (if bitIndex < 8 * length message
      then set_lsb_bits message b
             (pixelValue OR push_bit b (message_bit message bitIndex)) (bitIndex + 1)
      else (pixelValue, bitIndex))"

text \<open>A store into a \<open>Uint8ClampedArray\<close> clamps to 0..255.\<close>

definition clamp_u8 :: "int \<Rightarrow> byte" where
  "clamp_u8 v = word_of_int (max 0 (min 255 v))"

text \<open>The body of the channel loop: clear the low bits, set the new ones, store.\<close>

definition embed_channel :: "byte list \<Rightarrow> nat \<Rightarrow> byte \<Rightarrow> nat \<Rightarrow> byte \<times> nat" where
  "embed_channel message lsbDepth px bitIndex =
     (let mask = push_bit lsbDepth (0xFF :: int);
          pixelValue = uint px AND mask;
          (pixelValue', bitIndex') = set_lsb_bits message lsbDepth pixelValue bitIndex
      in (clamp_u8 pixelValue', bitIndex'))"

text \<open>
  \<open>for (channel = 0; channel < 3 && bitIndex < totalBitsToEmbed; channel++)\<close>, run on
  the three colour bytes of one pixel.
\<close>

fun embed_channels :: "byte list \<Rightarrow> nat \<Rightarrow> byte list \<Rightarrow> nat \<Rightarrow> byte list \<times> nat" where
  "embed_channels message lsbDepth [] bitIndex = ([], bitIndex)"
| "embed_channels message lsbDepth (c # cs) bitIndex =
     (if bitIndex < 8 * length message
      then (let (c', bitIndex') = embed_channel message lsbDepth c bitIndex;
                (cs', bitIndex'') = embed_channels message lsbDepth cs bitIndex'
            in (c' # cs', bitIndex''))
      else (c # cs, bitIndex))"

text \<open>
  \<open>for (pixelOffset = 0; pixelOffset < pixels.length && bitIndex < totalBitsToEmbed;
  pixelOffset += 4)\<close>: the RGB bytes go through the channel loop, the alpha byte is
  set to 255, and the loop stops, leaving the rest of the array as it is, once the
  message is written. The data of an \<open>ImageData\<close> has \<open>4 * width * height\<close> bytes (its
  constructor refuses anything else), so the loop only meets whole pixels; a trailing
  partial pixel, which cannot occur, is left as it is by the last equation.
\<close>

fun embed_pixels :: "byte list \<Rightarrow> nat \<Rightarrow> byte list \<Rightarrow> nat \<Rightarrow> byte list" where
  "embed_pixels message lsbDepth (r # g # b # a # rest) bitIndex =
     (if bitIndex < 8 * length message
      then (let (rgb, bitIndex') = embed_channels message lsbDepth [r, g, b] bitIndex
            in rgb @ 255 # embed_pixels message lsbDepth rest bitIndex')
      else r # g # b # a # rest)"
| "embed_pixels message lsbDepth pixels bitIndex = pixels"

definition embedData :: "ImageData \<Rightarrow> byte list \<Rightarrow> nat \<Rightarrow> steg_error + ImageData" where
  "embedData imageData payloadBytes lsbDepth =
     (let pixels = data imageData;
          messageLength = 8 + length payloadBytes;
          message = image_message payloadBytes;
          usablePixels = width imageData * height imageData * 3;
          availableBits = usablePixels * lsbDepth;
          neededBits = messageLength * 8
      in if neededBits > availableBits then Inl (PayloadTooLarge neededBits availableBits)
         else Inr \<lparr> width = width imageData, height = height imageData,
                    data = embed_pixels message lsbDepth pixels 0 \<rparr>)"

text \<open>The bit-collecting loop of \<open>extractData\<close> over whole pixels.\<close>

fun extract_pixel_bits :: "nat \<Rightarrow> byte list \<Rightarrow> int list" where
  "extract_pixel_bits lsbDepth (r # g # b # a # rest) =
     lsb_bits lsbDepth (uint r) @ lsb_bits lsbDepth (uint g) @ lsb_bits lsbDepth (uint b)
     @ extract_pixel_bits lsbDepth rest"
| "extract_pixel_bits lsbDepth pixels = []"

text \<open>
  \<open>extractData\<close>; \<open>None\<close> is the source's \<open>null\<close>. The length accumulator
  \<open>payloadLength = (payloadLength << 8) | byte\<close> is a 32-bit signed integer in
  JavaScript, so it is a 32-bit word read with \<open>sint\<close>.
\<close>

definition extractData :: "ImageData \<Rightarrow> nat \<Rightarrow> byte list option" where
  "extractData imageData lsbDepth =
     (let pixels = data imageData;
          usableChannels = width imageData * height imageData * 3;
          maxBits = usableChannels * lsbDepth
      in if maxBits < 64 then None
         else
           (let extractedBits = extract_pixel_bits lsbDepth pixels
            in if length extractedBits < 64 then None
               else
                 (let extractedMagic = map (\<lambda>byteIdx. read_byte extractedBits (byteIdx * 8)) [0..<4]
                  in if extractedMagic \<noteq> map uint MAGIC_HEADER then None
                     else
                       (let payloadLength =
                              foldl (\<lambda>pl byteIdx.
                                       push_bit 8 pl OR word_of_int (read_byte extractedBits (byteIdx * 8)))
                                (0 :: 32 word) [4..<8];
                            availablePayloadBits = int (length extractedBits) - 64;
                            maxPayloadBytes = availablePayloadBits div 8
                        in if sint payloadLength \<le> 0 \<or> sint payloadLength > maxPayloadBytes then None
                           else Some (map (\<lambda>byteIdx. word_of_int
                                             (read_byte_guarded extractedBits (64 + byteIdx * 8)))
                                        [0..<nat (sint payloadLength)])))))"

subsection \<open>Audio engine (\<open>wav-codec.ts\<close>)\<close>

text \<open>
  The framed message of \<open>embedWavData\<close>: the length is written with
  \<open>setUint32(4, len, false)\<close>, big-endian, modulo \<open>2 ^ 32\<close>.
\<close>

definition setUint32_be :: "nat \<Rightarrow> byte list" where
  "setUint32_be n =
     (let w = (word_of_nat n :: 32 word)
      in [ucast (drop_bit 24 w), ucast (drop_bit 16 w), ucast (drop_bit 8 w), ucast w])"

definition getUint32_be :: "byte list \<Rightarrow> nat" where
  "getUint32_be bs =
     unat (bs ! 0) * 2 ^ 24 + unat (bs ! 1) * 2 ^ 16 + unat (bs ! 2) * 2 ^ 8 + unat (bs ! 3)"

definition wav_message :: "byte list \<Rightarrow> byte list" where
  "wav_message payloadBytes = MAGIC_HEADER @ setUint32_be (length payloadBytes) @ payloadBytes"

definition message_bits :: "byte list \<Rightarrow> int list" where
  "message_bits fullMessage = concat (map (\<lambda>byte. lsb_bits 8 (uint byte)) fullMessage)"

text \<open>
  \<open>for (d = lsbDepth - 1; d >= 0 && bitIndex < bits.length; d--)
  newValue |= bits[bitIndex++] << d\<close>; the second argument is \<open>d + 1\<close>.
\<close>

fun set_sample_bits :: "int list \<Rightarrow> nat \<Rightarrow> int \<Rightarrow> nat \<Rightarrow> int \<times> nat" where
  "set_sample_bits bits 0 newValue bitIndex = (newValue, bitIndex)"
| "set_sample_bits bits (Suc d) newValue bitIndex =
     (if bitIndex < length bits
      then set_sample_bits bits d (newValue OR push_bit d (bits ! bitIndex)) (bitIndex + 1)
      else (newValue, bitIndex))"

text \<open>
  The body of the sample loop. A sample read from the \<open>Int16Array\<close> is the signed
  value \<open>sint s\<close>; the mask is \<open>0xFFFF << lsbDepth\<close>; the store wraps to 16 bits.
\<close>

definition embed_sample :: "int list \<Rightarrow> nat \<Rightarrow> 16 word \<Rightarrow> nat \<Rightarrow> 16 word \<times> nat" where
  "embed_sample bits lsbDepth s bitIndex =
     (let mask = push_bit lsbDepth (0xFFFF :: int);
          newValue = sint s AND mask;
          (newValue', bitIndex') = set_sample_bits bits lsbDepth newValue bitIndex
      in (word_of_int newValue', bitIndex'))"

text \<open>\<open>for (i = 0; i < samples.length && bitIndex < bits.length; i++)\<close>.\<close>

fun embed_samples :: "int list \<Rightarrow> nat \<Rightarrow> 16 word list \<Rightarrow> nat \<Rightarrow> 16 word list" where
  "embed_samples bits lsbDepth [] bitIndex = []"
| "embed_samples bits lsbDepth (s # ss) bitIndex =
     (if bitIndex < length bits
      then (let (s', bitIndex') = embed_sample bits lsbDepth s bitIndex
            in s' # embed_samples bits lsbDepth ss bitIndex')
      else s # ss)"

definition embedWavData :: "WavData \<Rightarrow> byte list \<Rightarrow> nat \<Rightarrow> steg_error + WavData" where
  "embedWavData wavData payloadBytes lsbDepth =
     (let fullMessage = wav_message payloadBytes;
          bits = message_bits fullMessage;
          availableBits = length (samples wavData) * lsbDepth
      in if length bits > availableBits then Inl (PayloadTooLarge (length bits) availableBits)
         else Inr \<lparr> samples = embed_samples bits lsbDepth (samples wavData) 0,
                    sampleRate = sampleRate wavData, channels = channels wavData,
                    bitsPerSample = bitsPerSample wavData \<rparr>)"

text \<open>
  \<open>for (i = 0; i < samples.length && bits.length < totalBits; i++)\<close> of
  \<open>extractWavData\<close>, with the bits collected so far as accumulator.
\<close>

fun extract_sample_bits :: "nat \<Rightarrow> nat \<Rightarrow> 16 word list \<Rightarrow> int list \<Rightarrow> int list" where
  "extract_sample_bits lsbDepth totalBits [] bits = bits"
| "extract_sample_bits lsbDepth totalBits (s # ss) bits =
     (if length bits < totalBits
      then extract_sample_bits lsbDepth totalBits ss (bits @ lsb_bits lsbDepth (sint s))
      else bits)"

definition extractWavData :: "WavData \<Rightarrow> nat \<Rightarrow> byte list option" where
  "extractWavData wavData lsbDepth =
     (let totalBits = length (samples wavData) * lsbDepth
      in if totalBits < 64 then None
         else
           (let bits = extract_sample_bits lsbDepth totalBits (samples wavData) [];
                magicBytes = map (\<lambda>i. (word_of_int (read_byte bits (i * 8)) :: byte)) [0..<4]
            in if magicBytes \<noteq> MAGIC_HEADER then None
               else
                 (let lengthBytes = map (\<lambda>i. (word_of_int (read_byte bits (32 + i * 8)) :: byte)) [0..<4];
                      payloadLength = getUint32_be lengthBytes;
                      maxPossibleBytes = (int (length bits) - 64) div 8
                  in if payloadLength \<le> 0 \<or> int payloadLength > maxPossibleBytes then None
                     else Some (map (\<lambda>i. word_of_int (read_byte_guarded bits (64 + i * 8)))
                                  [0..<payloadLength]))))"

subsection \<open>Embedding followed by extraction, and notions used in the proofs\<close>

text \<open>
  The spec's \<open>extract(embed(C, M, d), d)\<close>; the encode page runs exactly this
  composition to verify a fresh embedding (\<open>embedData\<close>, then \<open>extractData\<close> on the
  result at the same depth).
\<close>

definition embed_then_extract :: "ImageData \<Rightarrow> byte list \<Rightarrow> nat \<Rightarrow> steg_error + byte list option" where
  "embed_then_extract imageData payload lsbDepth =
     (case embedData imageData payload lsbDepth of
        Inl e \<Rightarrow> Inl e
      | Inr result \<Rightarrow> Inr (extractData result lsbDepth))"

definition embed_then_extract_wav :: "WavData \<Rightarrow> byte list \<Rightarrow> nat \<Rightarrow> steg_error + byte list option" where
  "embed_then_extract_wav wavData payload lsbDepth =
     (case embedWavData wavData payload lsbDepth of
        Inl e \<Rightarrow> Inl e
      | Inr result \<Rightarrow> Inr (extractWavData result lsbDepth))"

text \<open>
  Three auxiliary functions, used only to state lemmas. \<open>cells_embed\<close> is the common
  shape of the two cell loops (a cell is a colour byte or a sample): cells are
  rewritten in order while message bits remain. \<open>rgb_of\<close> lists the colour bytes of
  an RGBA array in traversal order. \<open>set_bits_gen\<close> is the innermost loop with the
  bit source as a parameter.
\<close>

fun cells_embed :: "('a \<Rightarrow> nat \<Rightarrow> 'a \<times> nat) \<Rightarrow> nat \<Rightarrow> 'a list \<Rightarrow> nat \<Rightarrow> 'a list" where
  "cells_embed wr T [] bi = []"
| "cells_embed wr T (c # cs) bi =
     (if bi < T then (let (c', bi') = wr c bi in c' # cells_embed wr T cs bi') else c # cs)"

fun rgb_of :: "'a list \<Rightarrow> 'a list" where
  "rgb_of (r # g # b # a # rest) = r # g # b # rgb_of rest"
| "rgb_of pixels = []"

fun set_bits_gen :: "(nat \<Rightarrow> int) \<Rightarrow> nat \<Rightarrow> nat \<Rightarrow> int \<Rightarrow> nat \<Rightarrow> int \<times> nat" where
  "set_bits_gen f T 0 v bi = (v, bi)"
| "set_bits_gen f T (Suc b) v bi =
     (if bi < T then set_bits_gen f T b (v OR push_bit b (f bi)) (bi + 1) else (v, bi))"

section \<open>PNG scanline reconstruction\<close>

text \<open>
  \<open>png-encoder.ts\<close>, \<open>decodePNG\<close>: the part after inflation. The channel count is 4
  unless the colour type is 2 (RGB).
\<close>

definition png_channels :: "nat \<Rightarrow> nat" where
  "png_channels colorType = (if colorType = 2 then 3 else 4)"


text \<open>The nested function \<open>paethPredictor\<close>, on JavaScript numbers.\<close>

definition paethPredictor :: "int \<Rightarrow> int \<Rightarrow> int \<Rightarrow> int" where
  "paethPredictor a b c =
     (let p = a + b - c;
          pa = \<bar>p - a\<bar>;
          pb = \<bar>p - b\<bar>;
          pc = \<bar>p - c\<bar>
      in if pa \<le> pb \<and> pa \<le> pc then a
         else if pb \<le> pc then b
         else c)"

text \<open>
  The predictor in the spec's words: among a, b, c the one minimising \<open>|p - x|\<close> for
  \<open>p = a + b - c\<close>, ties broken in the order a, b, c.
\<close>

definition paeth_spec :: "int \<Rightarrow> int \<Rightarrow> int \<Rightarrow> int" where
  "paeth_spec a b c =
     (let p = a + b - c;
          best = Min {\<bar>p - a\<bar>, \<bar>p - b\<bar>, \<bar>p - c\<bar>}
      in if \<bar>p - a\<bar> = best then a
         else if \<bar>p - b\<bar> = best then b
         else c)"

text \<open>
  The \<open>switch (filterType)\<close> of the inverse filter: the value stored into
  \<open>currentRow[x]\<close>. Filter 0 and every unknown filter type leave the byte as it is.
\<close>

definition unfilter_byte :: "nat \<Rightarrow> int \<Rightarrow> int \<Rightarrow> int \<Rightarrow> int \<Rightarrow> byte" where
  "unfilter_byte filterType raw left up upLeft =
     (if filterType = 1 then word_of_int ((raw + left) AND 0xFF)
      else if filterType = 2 then word_of_int ((raw + up) AND 0xFF)
      else if filterType = 3 then word_of_int ((raw + (left + up) div 2) AND 0xFF)
      else if filterType = 4 then word_of_int ((raw + paethPredictor left up upLeft) AND 0xFF)
      else word_of_int raw)"

text \<open>
  \<open>for (x = 0; x < filterRowSize; x++)\<close>, updating \<open>currentRow\<close> in place, so that
  \<open>left\<close> is an already reconstructed byte.
\<close>

function unfilter_row :: "nat \<Rightarrow> nat \<Rightarrow> byte list \<Rightarrow> byte list \<Rightarrow> nat \<Rightarrow> byte list" where
  "unfilter_row filterType chans prevRow currentRow x =
     (if x < length currentRow
      then (let left = (if x \<ge> chans then uint (currentRow ! (x - chans)) else 0);
                up = uint (prevRow ! x);
                upLeft = (if x \<ge> chans then uint (prevRow ! (x - chans)) else 0)
            in unfilter_row filterType chans prevRow
                 (currentRow[x := unfilter_byte filterType (uint (currentRow ! x)) left up upLeft])
                 (x + 1))
      else currentRow)"
  by pat_completeness auto
termination
  by (relation "measure (\<lambda>(ft, ch, prev, cur, x). length cur - x)") auto

text \<open>
  \<open>currentRow[i] = decompressed[dOffset + i]\<close>: a read past the end of the inflated
  data is \<open>undefined\<close>, stored into the \<open>Uint8Array\<close> as 0.
\<close>

definition read_or_zero :: "byte list \<Rightarrow> nat \<Rightarrow> byte" where
  "read_or_zero bs i = (if i < length bs then bs ! i else 0)"

text \<open>The copy of one reconstructed row into the RGBA output.\<close>

definition rgba_of_row :: "nat \<Rightarrow> nat \<Rightarrow> byte list \<Rightarrow> byte list" where
  "rgba_of_row w chans row =
     concat (map (\<lambda>x. let srcOffset = x * chans
                       in [row ! srcOffset, row ! (srcOffset + 1), row ! (srcOffset + 2),
                           if chans = 4 then row ! (srcOffset + 3) else 255]) [0..<w])"

text \<open>
  \<open>for (y = 0; y < height; y++)\<close>; the first argument is the number of rows left.
  A filter-type byte read past the end is \<open>undefined\<close>, which matches no case of the
  switch, as the value 256 does here. The row swap makes the reconstructed row the next
  \<open>prevRow\<close>.
\<close>

fun reconstruct_scanlines ::
  "nat \<Rightarrow> nat \<Rightarrow> nat \<Rightarrow> byte list \<Rightarrow> nat \<Rightarrow> byte list \<Rightarrow> byte list" where
  "reconstruct_scanlines 0 w chans decompressed dOffset prevRow = []"
| "reconstruct_scanlines (Suc rows) w chans decompressed dOffset prevRow =
     (let filterRowSize = w * chans;
          filterType = (if dOffset < length decompressed then unat (decompressed ! dOffset) else 256);
          raw = map (\<lambda>i. read_or_zero decompressed (dOffset + 1 + i)) [0..<filterRowSize];
          currentRow = unfilter_row filterType chans prevRow raw 0
      in rgba_of_row w chans currentRow
         @ reconstruct_scanlines rows w chans decompressed (dOffset + 1 + filterRowSize) currentRow)"

definition decode_scanlines :: "nat \<Rightarrow> nat \<Rightarrow> nat \<Rightarrow> byte list \<Rightarrow> byte list" where
  "decode_scanlines w h colorType decompressed =
     (let chans = png_channels colorType
      in reconstruct_scanlines h w chans decompressed 0 (replicate (w * chans) 0))"

text \<open>
  A notion used in the proofs: the content of \<open>prevRow\<close> when iteration \<open>y\<close> of the
  scanline loop of \<open>decodePNG\<close> begins, that is, the zero-filled array before the first
  scanline and afterwards the scanline reconstructed by iteration \<open>y - 1\<close>.
\<close>

fun prev_row_at :: "nat \<Rightarrow> nat \<Rightarrow> byte list \<Rightarrow> nat \<Rightarrow> byte list" where
  "prev_row_at w chans decompressed 0 = replicate (w * chans) 0"
| "prev_row_at w chans decompressed (Suc y) =
     (let filterRowSize = w * chans;
          dOffset = y * (1 + filterRowSize);
          filterType = (if dOffset < length decompressed then unat (decompressed ! dOffset) else 256);
          raw = map (\<lambda>i. read_or_zero decompressed (dOffset + 1 + i)) [0..<filterRowSize]
      in unfilter_row filterType chans (prev_row_at w chans decompressed y) raw 0)"


section \<open>The crypto envelope\<close>

text \<open>
  \<open>crypto.worker.ts\<close>. The Web Crypto and stream operations are not code of the
  repository: PBKDF2 key derivation, AES-GCM and the gzip streams are parameters, each
  returning either the message of the exception it throws (\<open>Inl\<close>) or its result. The
  type \<open>'k\<close> is the type of derived keys.
\<close>

record 'k crypto_env =
  deriveKeyPBKDF2 :: "string \<Rightarrow> byte list \<Rightarrow> nat \<Rightarrow> string + 'k"
  aes_gcm_encrypt :: "'k \<Rightarrow> byte list \<Rightarrow> byte list \<Rightarrow> string + byte list"
  aes_gcm_decrypt :: "'k \<Rightarrow> byte list \<Rightarrow> byte list \<Rightarrow> string + byte list"
  compressData :: "byte list \<Rightarrow> string + byte list"
  decompressData :: "byte list \<Rightarrow> string + byte list"

text \<open>
  What a handler posts to the page, in order: \<open>sendProgress\<close> (progress, stage,
  message), \<open>sendComplete\<close> (result) and \<open>sendError\<close> (message, code).
\<close>

datatype worker_msg =
    Progress nat string string
  | Complete "byte list"
  | Error string string

definition FLAG_COMPRESSED :: byte where "FLAG_COMPRESSED = 1"
definition FLAG_HIGH_SECURITY :: byte where "FLAG_HIGH_SECURITY = 2"

text \<open>\<open>DataView.setUint32(0, n, true)\<close> and \<open>getUint32(0, true)\<close>: little-endian.\<close>

definition setUint32_le :: "nat \<Rightarrow> byte list" where
  "setUint32_le n =
     (let w = (word_of_nat n :: 32 word)
      in [ucast w, ucast (drop_bit 8 w), ucast (drop_bit 16 w), ucast (drop_bit 24 w)])"

definition getUint32_le :: "byte list \<Rightarrow> nat" where
  "getUint32_le bs =
     unat (bs ! 0) + unat (bs ! 1) * 2 ^ 8 + unat (bs ! 2) * 2 ^ 16 + unat (bs ! 3) * 2 ^ 24"

text \<open>\<open>data.slice(start, end)\<close> on a typed array, for \<open>start \<le> end\<close>.\<close>

definition js_slice :: "'a list \<Rightarrow> nat \<Rightarrow> nat \<Rightarrow> 'a list" where
  "js_slice xs start end' = take (end' - start) (drop start xs)"

text \<open>
  \<open>new Uint8Array(n)\<close> is an array of \<open>n\<close> zero bytes. \<open>crypto.getRandomValues(array)\<close>
  overwrites every element of the array it is given and returns that array, so the result
  has the length of the argument. The random source is a function \<open>rnd\<close>: \<open>rnd k i\<close> is
  the byte that the \<open>k\<close>-th call made by the worker stores at index \<open>i\<close>.
\<close>

definition new_Uint8Array :: "nat \<Rightarrow> byte list" where
  "new_Uint8Array n = replicate n 0"

definition getRandomValues :: "(nat \<Rightarrow> nat \<Rightarrow> byte) \<Rightarrow> nat \<Rightarrow> byte list \<Rightarrow> byte list" where
  "getRandomValues rnd k array = map (\<lambda>i. rnd k i) [0..<length array]"

text \<open>
  \<open>handleEncrypt\<close>. The function \<open>active\<close> gives the value of \<open>activeJobs.get(id)\<close> at
  the successive cancellation checks (a CANCEL message can arrive between two awaits).
  The salt and the IV are drawn inside the function, after the key-generation progress
  message and before the key derivation, as in the source. The result is the list of
  messages posted.
\<close>

definition handleEncrypt ::
  "'k crypto_env \<Rightarrow> (nat \<Rightarrow> bool) \<Rightarrow> (nat \<Rightarrow> nat \<Rightarrow> byte) \<Rightarrow> byte list \<Rightarrow> string
   \<Rightarrow> bool \<Rightarrow> bool \<Rightarrow> worker_msg list" where
  "handleEncrypt env active rnd payload password useHighSecurity compress =
     (if \<not> active 0 then []
      else
        (let m1 = [Progress 10 ''encrypt'' ''Preparing data...'']
                  @ (if compress then [Progress 20 ''encrypt'' ''Compressing...''] else [])
         in case (if compress then compressData env payload else Inr payload) of
              Inl err \<Rightarrow> m1 @ [Error err ''ENCRYPT_ERROR'']
            | Inr dataToEncrypt \<Rightarrow>
                if \<not> active 1 then m1
                else
                  (let iterations = (if useHighSecurity then 310000 else 100000);
                       m2 = m1 @ [Progress 40 ''encrypt''
                                   (if useHighSecurity then ''Generating keys (PBKDF2 310K)...''
                                    else ''Generating keys (PBKDF2 100K)...'')];
                       salt = getRandomValues rnd 0 (new_Uint8Array 16);
                       iv = getRandomValues rnd 1 (new_Uint8Array 12)
                   in case deriveKeyPBKDF2 env password salt iterations of
                        Inl err \<Rightarrow> m2 @ [Error err ''ENCRYPT_ERROR'']
                      | Inr key \<Rightarrow>
                          if \<not> active 2 then m2
                          else
                            (let m3 = m2 @ [Progress 70 ''encrypt'' ''Encrypting...'']
                             in case aes_gcm_encrypt env key iv dataToEncrypt of
                                  Inl err \<Rightarrow> m3 @ [Error err ''ENCRYPT_ERROR'']
                                | Inr ciphertext \<Rightarrow>
                                    (let flagsByte =
                                           (if compress then FLAG_COMPRESSED else 0)
                                           OR (if useHighSecurity then FLAG_HIGH_SECURITY else 0);
                                         saltLenBytes = setUint32_le (length salt);
                                         packed = [flagsByte] @ saltLenBytes @ salt @ iv @ ciphertext
                                     in m3 @ [Progress 90 ''encrypt'' ''Packing...'',
                                              Progress 100 ''encrypt'' ''Complete'',
                                              Complete packed])))))"

definition GENERIC_ERROR :: string where
  "GENERIC_ERROR = ''Decryption failed - wrong password or corrupted data''"

text \<open>
  \<open>handleDecrypt\<close>. Every \<open>throw\<close> inside the \<open>try\<close> block and every rejection of an
  awaited operation lands in the \<open>catch\<close>, which posts \<open>GENERIC_ERROR\<close>.
\<close>

definition handleDecrypt ::
  "'k crypto_env \<Rightarrow> (nat \<Rightarrow> bool) \<Rightarrow> byte list \<Rightarrow> string \<Rightarrow> worker_msg list" where
  "handleDecrypt env active data' password =
     (if \<not> active 0 then []
      else
        (let m1 = [Progress 10 ''decrypt'' ''Unpacking data...''];
             failed = Error GENERIC_ERROR ''DECRYPT_ERROR''
         in if length data' < 49 then m1 @ [failed]
            else
              (let flags = data' ! 0;
                   isCompressed = (flags AND FLAG_COMPRESSED \<noteq> 0);
                   isHighSecurity = (flags AND FLAG_HIGH_SECURITY \<noteq> 0);
                   saltLen = getUint32_le (js_slice data' 1 5)
               in if saltLen \<noteq> 16 then m1 @ [failed]
                  else if 5 + saltLen > length data' then m1 @ [failed]
                  else
                    (let salt = js_slice data' 5 (5 + saltLen);
                         offset = 5 + saltLen
                     in if offset + 12 > length data' then m1 @ [failed]
                        else
                          (let iv = js_slice data' offset (offset + 12);
                               offset' = offset + 12
                           in if offset' + 16 > length data' then m1 @ [failed]
                              else
                                (let encryptedData = drop offset' data'
                                 in if \<not> active 1 then m1
                                    else
                                      (let iterations = (if isHighSecurity then 310000 else 100000);
                                           m2 = m1 @ [Progress 30 ''decrypt''
                                                  (if isHighSecurity then ''Deriving key (PBKDF2 310K)...''
                                                   else ''Deriving key (PBKDF2 100K)...'')]
                                       in case deriveKeyPBKDF2 env password salt iterations of
                                            Inl err \<Rightarrow> m2 @ [failed]
                                          | Inr key \<Rightarrow>
                                              if \<not> active 2 then m2
                                              else
                                                (let m3 = m2 @ [Progress 60 ''decrypt'' ''Decrypting...'']
                                                 in case aes_gcm_decrypt env key iv encryptedData of
                                                      Inl err \<Rightarrow> m3 @ [failed]
                                                    | Inr plaintext \<Rightarrow>
                                                        (let m4 = m3 @ [Progress 80 ''decrypt'' ''Processing...'']
                                                                  @ (if isCompressed
                                                                     then [Progress 85 ''decrypt'' ''Decompressing...'']
                                                                     else [])
                                                         in case (if isCompressed then decompressData env plaintext
                                                                  else Inr plaintext) of
                                                              Inl err \<Rightarrow> m4 @ [failed]
                                                            | Inr result \<Rightarrow>
                                                                m4 @ [Progress 100 ''decrypt'' ''Complete'',
                                                                      Complete result])))))))))"

section \<open>The payload container\<close>

text \<open>
  \<open>payload-helper.ts\<close>. A JavaScript string is a sequence of UTF-16 code units. A
  JavaScript number is modelled by its finite values, taken as integers (timestamps
  are millisecond counts), and the three non-finite values.
\<close>

type_synonym jsstring = "16 word list"

definition js :: "string \<Rightarrow> jsstring" where
  "js s = map (\<lambda>c. of_nat (of_char c)) s"

datatype jsnumber = Finite int | NaN | PosInfinity | NegInfinity

text \<open>
  A value as \<open>JSON.parse\<close> returns it; an object lists its properties in order, each
  key once.
\<close>

datatype json =
    JNull
  | JBool bool
  | JNumber jsnumber
  | JString jsstring
  | JArray "json list"
  | JObject "(jsstring \<times> json) list"

record PayloadMetadata =
  pm_type :: jsstring
  pm_name :: "jsstring option"
  pm_mimeType :: "jsstring option"
  pm_timestamp :: jsnumber

text \<open>
  \<open>JSON.stringify\<close> followed by \<open>TextEncoder.encode\<close>, and \<open>TextDecoder.decode\<close>
  followed by \<open>JSON.parse\<close> (\<open>None\<close> when it throws), are the runtime's; they are
  parameters, and \<open>now\<close> is the value of \<open>Date.now()\<close>.
\<close>

record json_env =
  stringify_utf8 :: "json \<Rightarrow> byte list"
  parse_utf8 :: "byte list \<Rightarrow> json option"
  now :: int

definition METADATA_VERSION :: byte where "METADATA_VERSION = 1"
definition MAX_METADATA_LENGTH :: nat where "MAX_METADATA_LENGTH = 10 * 1024"
definition MAX_FILENAME_LENGTH :: nat where "MAX_FILENAME_LENGTH = 255"

text \<open>
  \<open>name.slice(0, MAX_FILENAME_LENGTH).replace(/[<>:"/\\|?*\u0000-\u001f]/g, '_')\<close>.
\<close>

definition dangerous_char :: "16 word \<Rightarrow> bool" where
  "dangerous_char c \<longleftrightarrow>
     c \<in> {0x3C, 0x3E, 0x3A, 0x22, 0x2F, 0x5C, 0x7C, 0x3F, 0x2A} \<or> c \<le> 0x1F"

definition sanitize_name :: "jsstring \<Rightarrow> jsstring" where
  "sanitize_name name =
     map (\<lambda>c. if dangerous_char c then 0x5F else c) (take MAX_FILENAME_LENGTH name)"

text \<open>
  The object \<open>sanitizedMeta\<close> of \<open>packPayload\<close>. The timestamp has type \<open>number\<close>, so
  the test \<open>typeof metadata.timestamp === 'number'\<close> holds and the timestamp is kept,
  whatever number it is. An empty name or MIME type is falsy and is left out.
\<close>

definition sanitizeMeta :: "PayloadMetadata \<Rightarrow> PayloadMetadata" where
  "sanitizeMeta metadata =
     \<lparr> pm_type = (if pm_type metadata = js ''text'' then js ''text'' else js ''file''),
       pm_name = (case pm_name metadata of
                    None \<Rightarrow> None
                  | Some n \<Rightarrow> if n = [] then None else Some (sanitize_name n)),
       pm_mimeType = (case pm_mimeType metadata of
                    None \<Rightarrow> None
                  | Some m \<Rightarrow> if m = [] then None else Some (take 100 m)),
       pm_timestamp = pm_timestamp metadata \<rparr>"

text \<open>
  The value that \<open>JSON.stringify\<close> serialises for a metadata object: the properties in
  insertion order (type, timestamp, then name and mimeType when present), and a
  non-finite number as \<open>null\<close>, as ECMAScript prescribes.
\<close>

definition number_to_json :: "jsnumber \<Rightarrow> json" where
  "number_to_json n = (case n of Finite k \<Rightarrow> JNumber (Finite k) | _ \<Rightarrow> JNull)"

definition meta_to_json :: "PayloadMetadata \<Rightarrow> json" where
  "meta_to_json m =
     JObject ([(js ''type'', JString (pm_type m)), (js ''timestamp'', number_to_json (pm_timestamp m))]
              @ (case pm_name m of None \<Rightarrow> [] | Some n \<Rightarrow> [(js ''name'', JString n)])
              @ (case pm_mimeType m of None \<Rightarrow> [] | Some t \<Rightarrow> [(js ''mimeType'', JString t)]))"

datatype payload_error = MetadataTooLarge | InvalidPayloadFormat

definition payload_error_message :: "payload_error \<Rightarrow> string" where
  "payload_error_message e =
     (case e of MetadataTooLarge \<Rightarrow> ''Metadata too large''
              | InvalidPayloadFormat \<Rightarrow> ''Invalid payload format'')"

definition packPayload :: "json_env \<Rightarrow> byte list \<Rightarrow> PayloadMetadata \<Rightarrow> payload_error + byte list" where
  "packPayload env data' metadata =
     (let sanitizedMeta = sanitizeMeta metadata;
          metaBytes = stringify_utf8 env (meta_to_json sanitizedMeta)
      in if length metaBytes > MAX_METADATA_LENGTH then Inl MetadataTooLarge
         else Inr ([METADATA_VERSION] @ setUint32_le (length metaBytes) @ metaBytes @ data'))"

text \<open>
  Property lookup \<open>meta.key\<close> on a parsed value: \<open>None\<close> is \<open>undefined\<close>. Only an
  object has the properties read here.
\<close>

definition get_prop :: "json \<Rightarrow> jsstring \<Rightarrow> json option" where
  "get_prop v key = (case v of JObject ps \<Rightarrow> map_of ps key | _ \<Rightarrow> None)"

definition is_string :: "json \<Rightarrow> bool" where
  "is_string v = (case v of JString s \<Rightarrow> True | _ \<Rightarrow> False)"

definition is_number :: "json \<Rightarrow> bool" where
  "is_number v = (case v of JNumber n \<Rightarrow> True | _ \<Rightarrow> False)"

text \<open>\<open>isValidMetadata\<close>; \<open>typeof obj === 'object'\<close> holds of objects and arrays.\<close>

definition isValidMetadata :: "json \<Rightarrow> bool" where
  "isValidMetadata obj =
     (if \<not> (case obj of JObject ps \<Rightarrow> True | JArray xs \<Rightarrow> True | _ \<Rightarrow> False) then False
      else if get_prop obj (js ''type'') \<noteq> Some (JString (js ''text''))
              \<and> get_prop obj (js ''type'') \<noteq> Some (JString (js ''file'')) then False
      else if \<not> (case get_prop obj (js ''timestamp'') of Some v \<Rightarrow> is_number v | None \<Rightarrow> False)
        then False
      else if (case get_prop obj (js ''name'') of Some v \<Rightarrow> \<not> is_string v | None \<Rightarrow> False)
        then False
      else if (case get_prop obj (js ''mimeType'') of Some v \<Rightarrow> \<not> is_string v | None \<Rightarrow> False)
        then False
      else True)"

text \<open>
  The metadata that \<open>unpackPayload\<close> returns for a validated object, read through the
  fields of \<open>PayloadMetadata\<close>, with the name sanitised again when it is not empty.
\<close>

definition string_prop :: "json \<Rightarrow> jsstring \<Rightarrow> jsstring option" where
  "string_prop obj key = (case get_prop obj key of Some (JString s) \<Rightarrow> Some s | _ \<Rightarrow> None)"

definition metadata_of_json :: "json \<Rightarrow> PayloadMetadata" where
  "metadata_of_json parsed =
     \<lparr> pm_type = (case string_prop parsed (js ''type'') of Some s \<Rightarrow> s | None \<Rightarrow> []),
       pm_name = (case string_prop parsed (js ''name'') of
                    Some n \<Rightarrow> if n = [] then Some n else Some (sanitize_name n)
                  | None \<Rightarrow> None),
       pm_mimeType = string_prop parsed (js ''mimeType''),
       pm_timestamp = (case get_prop parsed (js ''timestamp'') of
                         Some (JNumber n) \<Rightarrow> n | _ \<Rightarrow> NaN) \<rparr>"

definition unpackPayload ::
  "json_env \<Rightarrow> byte list \<Rightarrow> payload_error + (byte list \<times> PayloadMetadata)" where
  "unpackPayload env buffer =
     (if length buffer < 5 then Inl InvalidPayloadFormat
      else
        (let version = buffer ! 0
         in if version \<noteq> METADATA_VERSION then
              Inr (buffer, \<lparr> pm_type = js ''file'', pm_name = Some (js ''recovered_data.bin''),
                             pm_mimeType = None, pm_timestamp = Finite (now env) \<rparr>)
            else
              (let metaLen = getUint32_le (js_slice buffer 1 5);
                   offset = 5
               in if metaLen \<le> 0 \<or> metaLen > MAX_METADATA_LENGTH then Inl InvalidPayloadFormat
                  else if offset + metaLen > length buffer then Inl InvalidPayloadFormat
                  else
                    (let metaBytes = js_slice buffer offset (offset + metaLen)
                     in case parse_utf8 env metaBytes of
                          None \<Rightarrow> Inl InvalidPayloadFormat
                        | Some parsed \<Rightarrow>
                            if \<not> isValidMetadata parsed then Inl InvalidPayloadFormat
                            else Inr (drop (offset + metaLen) buffer, metadata_of_json parsed)))))"

subsection \<open>Sample parameters\<close>

text \<open>
  Instances of the parameters, for running the model on concrete inputs. In
  \<open>sample_crypto_env\<close> the derived key is the salt, encryption appends a 16-byte tag of
  zeros, decryption checks the tag and strips it, and the gzip streams are the identity
  (which is also what \<open>compressData\<close> and \<open>decompressData\<close> are where the stream API is
  missing). \<open>sample_json_env\<close> knows one document, the serialisation of a file record
  whose timestamp is not finite.
\<close>

definition ascii :: "string \<Rightarrow> byte list" where
  "ascii s = map (\<lambda>c. of_nat (of_char c)) s"

definition sample_tag :: "byte list" where
  "sample_tag = [0, 0, 0, 0, 0, 0, 0, 0, 0, 0, 0, 0, 0, 0, 0, 0]"

definition sample_crypto_env :: "byte list crypto_env" where
  "sample_crypto_env =
     \<lparr> deriveKeyPBKDF2 = (\<lambda>password salt iterations. Inr salt),
       aes_gcm_encrypt = (\<lambda>key iv plaintext. Inr (plaintext @ sample_tag)),
       aes_gcm_decrypt = (\<lambda>key iv ciphertext.
          if 16 \<le> length ciphertext \<and> drop (length ciphertext - 16) ciphertext = sample_tag
          then Inr (take (length ciphertext - 16) ciphertext)
          else Inl ''OperationError''),
       compressData = (\<lambda>d. Inr d),
       decompressData = (\<lambda>d. Inr d) \<rparr>"

definition sample_json_env :: json_env where
  "sample_json_env =
     \<lparr> stringify_utf8 = (\<lambda>j. ascii ''{\"type\":\"file\",\"timestamp\":null}''),
       parse_utf8 = (\<lambda>bs. if bs = ascii ''{\"type\":\"file\",\"timestamp\":null}''
                           then Some (JObject [(js ''type'', JString (js ''file'')),
                                               (js ''timestamp'', JNull)])
                           else None),
       now = 0 \<rparr>"

text \<open>A metadata record of type \<open>file\<close> whose timestamp is \<open>NaN\<close>.\<close>

definition nan_metadata :: PayloadMetadata where
  "nan_metadata = \<lparr> pm_type = js ''file'', pm_name = None, pm_mimeType = None, pm_timestamp = NaN \<rparr>"

section \<open>The WAV decoder\<close>

text \<open>
  \<open>wav-codec.ts\<close>, \<open>decodeWav\<close>. The errors are the six that the function throws
  itself and the \<open>RangeError\<close> that a \<open>DataView\<close> getter throws when the bytes it is
  asked for do not lie inside the buffer.
\<close>

datatype wav_error =
    FileTooSmall
  | MissingRIFF
  | MissingWAVE
  | UnsupportedAudioFormat nat
  | UnsupportedBitDepth nat
  | MissingFmtOrData
  | RangeError

text \<open>
  \<open>data[i]\<close> on the \<open>Uint8Array\<close> inside \<open>String.fromCharCode\<close>: an index past the
  end yields \<open>undefined\<close>, which becomes the character with code 0.
\<close>

definition char_code_at :: "byte list \<Rightarrow> nat \<Rightarrow> byte" where
  "char_code_at bs i = (if i < length bs then bs ! i else 0)"

definition fourcc :: "byte list \<Rightarrow> nat \<Rightarrow> byte list" where
  "fourcc bs off = [char_code_at bs off, char_code_at bs (off + 1),
                    char_code_at bs (off + 2), char_code_at bs (off + 3)]"

text \<open>The little-endian getters of \<open>DataView\<close>.\<close>

definition getUint16 :: "byte list \<Rightarrow> nat \<Rightarrow> wav_error + nat" where
  "getUint16 bs off =
     (if off + 2 \<le> length bs then Inr (unat (bs ! off) + unat (bs ! (off + 1)) * 2 ^ 8)
      else Inl RangeError)"

definition getUint32 :: "byte list \<Rightarrow> nat \<Rightarrow> wav_error + nat" where
  "getUint32 bs off =
     (if off + 4 \<le> length bs then Inr (getUint32_le (js_slice bs off (off + 4)))
      else Inl RangeError)"

definition getInt16 :: "byte list \<Rightarrow> nat \<Rightarrow> wav_error + 16 word" where
  "getInt16 bs off =
     (if off + 2 \<le> length bs
      then Inr (ucast (bs ! off) OR push_bit 8 (ucast (bs ! (off + 1))))
      else Inl RangeError)"

text \<open>The variables that the chunk loop updates.\<close>

record chunk_state =
  cs_sampleRate :: nat
  cs_channels :: nat
  cs_bitsPerSample :: nat
  cs_dataOffset :: nat
  cs_dataSize :: nat

text \<open>The body of the \<open>fmt \<close> branch; \<open>off\<close> is the offset after the chunk header.\<close>

definition read_fmt :: "byte list \<Rightarrow> nat \<Rightarrow> chunk_state \<Rightarrow> wav_error + chunk_state" where
  "read_fmt bs off st =
     (case getUint16 bs off of
        Inl e \<Rightarrow> Inl e
      | Inr audioFormat \<Rightarrow>
          if audioFormat \<noteq> 1 then Inl (UnsupportedAudioFormat audioFormat)
          else
            (case getUint16 bs (off + 2) of
               Inl e \<Rightarrow> Inl e
             | Inr chans \<Rightarrow>
                 (case getUint32 bs (off + 4) of
                    Inl e \<Rightarrow> Inl e
                  | Inr rate \<Rightarrow>
                      (case getUint16 bs (off + 14) of
                         Inl e \<Rightarrow> Inl e
                       | Inr bits \<Rightarrow>
                           if bits \<noteq> 16 then Inl (UnsupportedBitDepth bits)
                           else Inr (st\<lparr> cs_channels := chans, cs_sampleRate := rate,
                                         cs_bitsPerSample := bits \<rparr>)))))"

text \<open>\<open>while (offset < data.length)\<close>.\<close>

function walk_chunks :: "byte list \<Rightarrow> nat \<Rightarrow> chunk_state \<Rightarrow> wav_error + chunk_state" where
  "walk_chunks bs offset st =
     (if offset < length bs
      then (let chunkId = fourcc bs offset
            in case getUint32 bs (offset + 4) of
                 Inl e \<Rightarrow> Inl e
               | Inr chunkSize \<Rightarrow>
                   (let offset' = offset + 8
                    in case (if chunkId = [0x66, 0x6D, 0x74, 0x20] then read_fmt bs offset' st
                             else if chunkId = [0x64, 0x61, 0x74, 0x61]
                               then Inr (st\<lparr> cs_dataOffset := offset', cs_dataSize := chunkSize \<rparr>)
                             else Inr st) of
                         Inl e \<Rightarrow> Inl e
                       | Inr st' \<Rightarrow>
                           walk_chunks bs
                             (offset' + chunkSize + (if chunkSize mod 2 \<noteq> 0 then 1 else 0)) st'))
      else Inr st)"
  by pat_completeness auto
termination
  by (relation "measure (\<lambda>(bs, offset, st). length bs - offset)") auto

text \<open>
  \<open>for (i = 0; i < numSamples; i++) samples[i] = view.getInt16(dataOffset + i * 2, true)\<close>
  with \<open>numSamples = dataSize / 2\<close>, so that the test is \<open>2 * i < dataSize\<close>; the array
  has \<open>floor(dataSize / 2)\<close> elements and a store past its end is dropped.
\<close>

function read_samples ::
  "byte list \<Rightarrow> nat \<Rightarrow> nat \<Rightarrow> nat \<Rightarrow> 16 word list \<Rightarrow> wav_error + 16 word list" where
  "read_samples bs dataOffset dataSize i acc =
     (if 2 * i < dataSize
      then (case getInt16 bs (dataOffset + i * 2) of
              Inl e \<Rightarrow> Inl e
            | Inr v \<Rightarrow>
                read_samples bs dataOffset dataSize (i + 1)
                  (if i < dataSize div 2 then acc @ [v] else acc))
      else Inr acc)"
  by pat_completeness auto
termination
  by (relation "measure (\<lambda>(bs, dataOffset, dataSize, i, acc). dataSize - 2 * i)") auto

definition decodeWav :: "byte list \<Rightarrow> wav_error + WavData" where
  "decodeWav bs =
     (if length bs < 44 then Inl FileTooSmall
      else if fourcc bs 0 \<noteq> [0x52, 0x49, 0x46, 0x46] then Inl MissingRIFF
      else if fourcc bs 8 \<noteq> [0x57, 0x41, 0x56, 0x45] then Inl MissingWAVE
      else
        (case walk_chunks bs 12
                \<lparr> cs_sampleRate = 0, cs_channels = 0, cs_bitsPerSample = 0,
                  cs_dataOffset = 0, cs_dataSize = 0 \<rparr> of
           Inl e \<Rightarrow> Inl e
         | Inr st \<Rightarrow>
             if cs_dataOffset st = 0 \<or> cs_sampleRate st = 0 then Inl MissingFmtOrData
             else
               (case read_samples bs (cs_dataOffset st) (cs_dataSize st) 0 [] of
                  Inl e \<Rightarrow> Inl e
                | Inr smp \<Rightarrow>
                    Inr \<lparr> samples = smp, sampleRate = cs_sampleRate st,
                          channels = cs_channels st, bitsPerSample = cs_bitsPerSample st \<rparr>)))"

text \<open>
  A canonical 44-byte header (PCM, mono, 44100 Hz, 16 bits) whose data chunk declares
  2 bytes; the file ends right after the header.
\<close>

definition wav_header_2 :: "byte list" where
  "wav_header_2 =
     [82, 73, 70, 70, 38, 0, 0, 0, 87, 65, 86, 69,
      102, 109, 116, 32, 16, 0, 0, 0, 1, 0, 1, 0, 68, 172, 0, 0, 136, 88, 1, 0, 2, 0, 16, 0,
      100, 97, 116, 97, 2, 0, 0, 0]"

section \<open>Capacity analysis: results\<close>

text \<open>
  C3 (as stated, refuted). The claim says that capacity analysis returns
  \<open>floor (W * H * 3 * d / 8) - 8\<close> also when that number is negative. For a 1 x 1
  image at depth 1 the expression is \<open>-8\<close>, and the code returns \<open>0\<close>: both analysers
  clamp with \<open>Math.max(0, ...)\<close>.
\<close>

theorem C3_capacity_negative_counterexample:
  "ca_maxCapacityBytes (analyzeImageCapacity \<lparr> width = 1, height = 1, data = [0, 0, 0, 255] \<rparr> 1) = 0
   \<and> ca_maxCapacityBytes (analyzeImageCapacity \<lparr> width = 1, height = 1, data = [0, 0, 0, 255] \<rparr> 1)
       \<noteq> int (1 * 1 * 3 * 1 div 8) - 8
   \<and> aa_maxCapacityBytes (analyzeWavCapacity
        \<lparr> samples = [0, 0], sampleRate = 44100, channels = 1, bitsPerSample = 16 \<rparr> 1) = 0
   \<and> aa_maxCapacityBytes (analyzeWavCapacity
        \<lparr> samples = [0, 0], sampleRate = 44100, channels = 1, bitsPerSample = 16 \<rparr> 1)
       \<noteq> int (2 * 1 div 8) - 8"
  by (simp add: analyzeImageCapacity_def analyzeWavCapacity_def)

text \<open>
  C3 (amended). For every image of width W and height H and every depth d, capacity
  analysis returns \<open>floor (W * H * 3 * d / 8) - 8\<close> when the carrier has at least 64
  usable bits and \<open>0\<close> otherwise; for every audio carrier with N samples it returns
  \<open>floor (N * d / 8) - 8\<close> when \<open>N * d \<ge> 64\<close> and \<open>0\<close> otherwise.
\<close>

theorem C3_capacity_clamped:
  "ca_maxCapacityBytes (analyzeImageCapacity img d) =
     (if 64 \<le> width img * height img * 3 * d
      then int (width img * height img * 3 * d div 8) - 8 else 0)
   \<and> aa_maxCapacityBytes (analyzeWavCapacity wav e) =
     (if 64 \<le> length (samples wav) * e
      then int (length (samples wav) * e div 8) - 8 else 0)"
proof -
  have a: "max 0 (int (n div 8) - 8) = (if 64 \<le> n then int (n div 8) - 8 else 0)" for n :: nat
    by (simp add: max_def) linarith
  show ?thesis
    using a [of "width img * height img * (3 * d)"] a [of "length (samples wav) * e"]
    by (simp add: analyzeImageCapacity_def analyzeWavCapacity_def Let_def mult.assoc)
qed

theorem C3_capacity_clamped_witness:
  "ca_maxCapacityBytes (analyzeImageCapacity \<lparr> width = 8, height = 8, data = [] \<rparr> 1) = 16
   \<and> aa_maxCapacityBytes (analyzeWavCapacity
        \<lparr> samples = [0, 0], sampleRate = 44100, channels = 1, bitsPerSample = 16 \<rparr> 4) = 0"
  using C3_capacity_clamped
    [of "\<lparr> width = 8, height = 8, data = [] \<rparr>" 1
        "\<lparr> samples = [0, 0], sampleRate = 44100, channels = 1, bitsPerSample = 16 \<rparr>" 4]
  by simp

section \<open>LSB depth policy: results\<close>

text \<open>
  C7 (as stated, refuted). The claim says a requested depth outside 1..4, or a depth
  above 1 on mobile or in quick mode, produces a DepthPolicy error. The function has no
  failing branch: depth 7 in expert mode on desktop is clamped to 4, and depth 3 on
  mobile or in quick mode is replaced by the forced depth 1.
\<close>

theorem C7_depth_policy_counterexample:
  "getLsbDepthForPlatform 7 True desktop =
     \<lparr> dr_depth = 4, dr_forced = False, dr_message = Some lsbDepthWarning \<rparr>
   \<and> getLsbDepthForPlatform 3 True mobile =
     \<lparr> dr_depth = 1, dr_forced = True, dr_message = Some mobileLsbForced \<rparr>
   \<and> getLsbDepthForPlatform 3 False desktop =
     \<lparr> dr_depth = 1, dr_forced = True, dr_message = None \<rparr>"
  by (simp add: getLsbDepthForPlatform_def)

text \<open>
  C7 (amended). For every requested depth, platform and mode the function returns a
  depth and never fails: on mobile or in quick mode the effective depth is 1 and is
  flagged as forced, whatever was requested; in expert mode on desktop the requested
  depth is clamped into 1..4 (so depths 1..4 are honoured unchanged) and is not flagged
  as forced; and the detectability warning is attached exactly when the effective depth
  exceeds 2.
\<close>

theorem C7_depth_policy_clamps:
  "(p = mobile \<or> \<not> expert \<longrightarrow>
      dr_depth (getLsbDepthForPlatform r expert p) = 1
      \<and> dr_forced (getLsbDepthForPlatform r expert p))
   \<and> (p = desktop \<and> expert \<longrightarrow>
      dr_depth (getLsbDepthForPlatform r expert p) = max 1 (min 4 r)
      \<and> \<not> dr_forced (getLsbDepthForPlatform r expert p))
   \<and> (p = desktop \<and> expert \<and> 1 \<le> r \<and> r \<le> 4 \<longrightarrow>
      dr_depth (getLsbDepthForPlatform r expert p) = r)
   \<and> (dr_message (getLsbDepthForPlatform r expert p) = Some lsbDepthWarning
      \<longleftrightarrow> 2 < dr_depth (getLsbDepthForPlatform r expert p))"
  by (cases p) (auto simp: getLsbDepthForPlatform_def Let_def lsbDepthWarning_def mobileLsbForced_def)

theorem C7_depth_policy_clamps_witness:
  "dr_depth (getLsbDepthForPlatform 3 True desktop) = 3
   \<and> \<not> dr_forced (getLsbDepthForPlatform 3 True desktop)
   \<and> dr_message (getLsbDepthForPlatform 3 True desktop) = Some lsbDepthWarning
   \<and> dr_depth (getLsbDepthForPlatform 9 False mobile) = 1
   \<and> dr_forced (getLsbDepthForPlatform 9 False mobile)"
  using C7_depth_policy_clamps [of desktop True 3] C7_depth_policy_clamps [of mobile False 9]
  by simp

section \<open>The LSB engine: lemmas\<close>

lemma upt8: "[0..<8] = [0, 1, 2, 3, 4, 5, 6, 7]"
  by (simp add: upt_rec)

lemma upt4: "[0..<4] = [0, 1, 2, 3]"
  by (simp add: upt_rec)

lemma upt48: "[4..<8] = [4, 5, 6, 7]"
  by (simp add: upt_rec)

lemma length_lsb_bits [simp]: "length (lsb_bits n v) = n"
  by (induction n) simp_all

lemma and_one_of_bool: "drop_bit k (v :: int) AND 1 = of_bool (bit v k)"
  by (simp add: and_one_eq bit_iff_odd_drop_bit mod_2_eq_odd)

lemma nth_lsb_bits: "k < n \<Longrightarrow> lsb_bits n v ! k = of_bool (bit v (n - 1 - k))"
proof (induction n arbitrary: k)
  case 0
  then show ?case by simp
next
  case (Suc n)
  then show ?case by (cases k) (simp_all add: and_one_of_bool)
qed

lemma cells_embed_done: "T \<le> bi \<Longrightarrow> cells_embed wr T cs bi = cs"
  by (cases cs) simp_all

lemma length_cells_embed [simp]: "length (cells_embed wr T cs bi) = length cs"
  by (induction wr T cs bi rule: cells_embed.induct) (simp_all split: prod.splits)

lemma length_concat_const:
  "(\<And>c. length (rd c) = d) \<Longrightarrow> length (concat (map rd cs)) = d * length cs"
  by (induction cs) simp_all

lemma cells_roundtrip:
  assumes wr: "\<And>c bi. bi < T \<Longrightarrow>
                 snd (wr c bi) = min T (bi + d)
                 \<and> (\<forall>k<d. bi + k < T \<longrightarrow> rd (fst (wr c bi)) ! k = f (bi + k))"
    and rd: "\<And>c. length (rd c) = d"
  shows "i < d * length cs \<Longrightarrow> bi + i < T \<Longrightarrow>
         concat (map rd (cells_embed wr T cs bi)) ! i = f (bi + i)"
proof (induction cs arbitrary: bi i)
  case Nil
  then show ?case by simp
next
  case (Cons c cs)
  from Cons.prems have lt: "bi < T" by simp
  obtain c' bi' where w: "wr c bi = (c', bi')" by (cases "wr c bi")
  from wr [OF lt, of c] w have bi': "bi' = min T (bi + d)"
    and bits: "\<forall>k<d. bi + k < T \<longrightarrow> rd c' ! k = f (bi + k)" by simp_all
  show ?case
  proof (cases "i < d")
    case True
    with Cons.prems bits lt w show ?thesis by (simp add: nth_append rd)
  next
    case False
    then have ge: "d \<le> i" by simp
    with Cons.prems have "bi + d \<le> T" by simp
    with bi' have eq: "bi' = bi + d" by simp
    from Cons.prems ge have a: "i - d < d * length cs" by simp
    from Cons.prems ge eq have b: "bi' + (i - d) < T" by simp
    from Cons.IH [OF a b] eq ge have "concat (map rd (cells_embed wr T cs bi')) ! (i - d) = f (bi + i)"
      by simp
    with False lt w show ?thesis by (simp add: nth_append rd)
  qed
qed

lemma set_lsb_bits_gen:
  "set_lsb_bits message n v bi = set_bits_gen (message_bit message) (8 * length message) n v bi"
  by (induction n arbitrary: v bi) simp_all

lemma set_sample_bits_gen:
  "set_sample_bits bits n v bi = set_bits_gen (\<lambda>i. bits ! i) (length bits) n v bi"
  by (induction n arbitrary: v bi) simp_all

lemma snd_set_bits_gen: "bi \<le> T \<Longrightarrow> snd (set_bits_gen f T n v bi) = min T (bi + n)"
  by (induction n arbitrary: v bi) auto

lemma bit_push_bit_01:
  "x = 0 \<or> x = 1 \<Longrightarrow> bit (push_bit b (x :: int)) j \<longleftrightarrow> j = b \<and> x = 1"
  by (auto simp: bit_push_bit_iff bit_1_iff)

lemma bit_set_bits_gen:
  "(\<And>i. i < T \<Longrightarrow> f i = 0 \<or> f i = 1) \<Longrightarrow>
   bit (fst (set_bits_gen f T n v bi)) j \<longleftrightarrow>
     bit v j \<or> (j < n \<and> bi + (n - 1 - j) < T \<and> f (bi + (n - 1 - j)) = 1)"
proof (induction n arbitrary: v bi)
  case 0
  then show ?case by simp
next
  case (Suc n)
  show ?case
  proof (cases "bi < T")
    case False
    then show ?thesis by simp
  next
    case True
    have "bit (fst (set_bits_gen f T n (v OR push_bit n (f bi)) (bi + 1))) j \<longleftrightarrow>
          bit (v OR push_bit n (f bi)) j \<or> (j < n \<and> bi + 1 + (n - 1 - j) < T \<and> f (bi + 1 + (n - 1 - j)) = 1)"
      using Suc.IH [OF Suc.prems] by simp
    moreover have "bit (push_bit n (f bi)) j \<longleftrightarrow> j = n \<and> f bi = 1"
      using Suc.prems [OF True] by (rule bit_push_bit_01)
    moreover have "j < n \<Longrightarrow> bi + 1 + (n - 1 - j) = bi + (n - j)" by simp
    ultimately show ?thesis using True
      by (cases "j = n") (auto simp: bit_or_iff less_Suc_eq)
  qed
qed

lemma set_bits_gen_bounds:
  "(\<And>i. i < T \<Longrightarrow> f i = 0 \<or> f i = 1) \<Longrightarrow> 0 \<le> v \<Longrightarrow> v < 2 ^ m \<Longrightarrow> n \<le> m \<Longrightarrow>
   0 \<le> fst (set_bits_gen f T n v bi) \<and> fst (set_bits_gen f T n v bi) < 2 ^ m"
proof (induction n arbitrary: v bi)
  case 0
  then show ?case by simp
next
  case (Suc n)
  show ?case
  proof (cases "bi < T")
    case False
    with Suc.prems show ?thesis by simp
  next
    case True
    from Suc.prems(1) [OF True] have fb: "f bi = 0 \<or> f bi = 1" .
    have p0: "0 \<le> push_bit n (f bi)" using fb by auto
    have "(2::int) ^ n < 2 ^ m" using Suc.prems(4) by simp
    then have p1: "push_bit n (f bi) < 2 ^ m" using fb by (auto simp: push_bit_eq_mult)
    have a: "0 \<le> v OR push_bit n (f bi)" using Suc.prems(2) p0 by simp
    have b: "v OR push_bit n (f bi) < 2 ^ m"
      using Suc.prems(2,3) p0 p1 by (simp add: OR_upper)
    from Suc.IH [OF Suc.prems(1) a b] Suc.prems(4) True show ?thesis by simp
  qed
qed

lemma message_bit_01: "message_bit message i = 0 \<or> message_bit message i = 1"
  by (simp add: message_bit_def Let_def and_one_of_bool)

lemma message_bit_of_bool:
  "message_bit message i = of_bool (bit (message ! (i div 8)) (7 - i mod 8))"
proof -
  have "7 - i mod 8 < (8::nat)" by arith
  then show ?thesis
    by (simp add: message_bit_def Let_def and_one_of_bool bit_uint_iff)
qed

lemma clamp_u8_id: "0 \<le> v \<Longrightarrow> v < 256 \<Longrightarrow> uint (clamp_u8 v) = v"
  by (simp add: clamp_u8_def uint_word_of_int take_bit_int_eq_self min_def max_def)

lemma embed_channel_spec:
  assumes "bi < 8 * length message" "d \<le> 8"
  shows "snd (embed_channel message d c bi) = min (8 * length message) (bi + d)
     \<and> (\<forall>k<d. bi + k < 8 * length message \<longrightarrow>
          lsb_bits d (uint (fst (embed_channel message d c bi))) ! k = message_bit message (bi + k))"
proof -
  let ?T = "8 * length message"
  let ?v = "uint c AND push_bit d (0xFF :: int)"
  let ?r = "set_bits_gen (message_bit message) ?T d ?v bi"
  have ec: "embed_channel message d c bi = (clamp_u8 (fst ?r), snd ?r)"
    by (simp add: embed_channel_def set_lsb_bits_gen split: prod.splits)
  have v0: "0 \<le> ?v" by simp
  have "?v \<le> uint c" by (rule AND_upper1) simp
  moreover have "uint c < 2 ^ 8" using uint_bounded [of c] by simp
  ultimately have v1: "?v < 2 ^ 8" by linarith
  have bnd: "0 \<le> fst ?r \<and> fst ?r < 2 ^ 8"
    by (rule set_bits_gen_bounds [OF message_bit_01 v0 v1 assms(2)])
  then have u: "uint (clamp_u8 (fst ?r)) = fst ?r" by (simp add: clamp_u8_id)
  have low: "\<not> bit ?v j" if "j < d" for j
    using that by (simp add: bit_and_iff bit_push_bit_iff)
  have bits: "lsb_bits d (fst ?r) ! k = message_bit message (bi + k)"
    if "k < d" "bi + k < ?T" for k
  proof -
    have j: "d - 1 - k < d" "d - 1 - (d - 1 - k) = k" using that by simp_all
    have "bit (fst ?r) (d - 1 - k) \<longleftrightarrow> message_bit message (bi + k) = 1"
      using bit_set_bits_gen [of ?T "message_bit message" d ?v bi "d - 1 - k", OF message_bit_01]
        low [OF j(1)] j that by simp
    then show ?thesis
      using message_bit_01 [of message "bi + k"] that by (auto simp: nth_lsb_bits)
  qed
  show ?thesis
    using assms bits by (simp add: ec u snd_set_bits_gen)
qed

lemma embed_pixels_done: "8 * length message \<le> bi \<Longrightarrow> embed_pixels message d pixels bi = pixels"
  by (induction message d pixels bi rule: embed_pixels.induct) simp_all

lemma length_embed_channels: "length (fst (embed_channels message d cs bi)) = length cs"
  by (induction cs arbitrary: bi) (simp_all add: case_prod_beta Let_def)

lemma length_embed_pixels [simp]: "length (embed_pixels message d pixels bi) = length pixels"
proof (induction message d pixels bi rule: embed_pixels.induct)
  case (1 message d r g b a rest bi)
  then show ?case
    using length_embed_channels [of message d "[r, g, b]" bi]
    by (simp split: prod.splits)
qed simp_all

lemma rgb_of_embed_pixels:
  "rgb_of (embed_pixels message d pixels bi)
   = cells_embed (embed_channel message d) (8 * length message) (rgb_of pixels) bi"
proof (induction message d pixels bi rule: embed_pixels.induct)
  case (1 message d r g b a rest bi)
  show ?case
  proof (cases "bi < 8 * length message")
    case False
    then show ?thesis by simp
  next
    case True
    then show ?thesis
      using 1
      by (auto simp: embed_pixels_done cells_embed_done Let_def split: prod.splits)
  qed
qed simp_all

lemma extract_pixel_bits_concat:
  "extract_pixel_bits d pixels = concat (map (\<lambda>c. lsb_bits d (uint c)) (rgb_of pixels))"
  by (induction d pixels rule: extract_pixel_bits.induct) simp_all

lemma length_rgb_of: "length pixels = 4 * n \<Longrightarrow> length (rgb_of pixels) = 3 * n"
proof (induction pixels arbitrary: n rule: rgb_of.induct)
  case (1 r g b a rest)
  then obtain m where "n = Suc m" by (cases n) auto
  with 1 show ?case by simp
qed auto

lemma length_extract_pixel_bits:
  "length pixels = 4 * n \<Longrightarrow> length (extract_pixel_bits d pixels) = d * (3 * n)"
  by (simp add: extract_pixel_bits_concat length_concat_const length_rgb_of)

lemma extract_embed_pixels_nth:
  assumes "length pixels = 4 * n" "d \<le> 8" "i < 8 * length message" "i < d * (3 * n)"
  shows "extract_pixel_bits d (embed_pixels message d pixels 0) ! i = message_bit message i"
proof -
  have "concat (map (\<lambda>c. lsb_bits d (uint c))
          (cells_embed (embed_channel message d) (8 * length message) (rgb_of pixels) 0)) ! i
        = message_bit message (0 + i)"
  proof (rule cells_roundtrip [where d = d])
    show "snd (embed_channel message d c bi) = min (8 * length message) (bi + d) \<and>
          (\<forall>k<d. bi + k < 8 * length message \<longrightarrow>
             lsb_bits d (uint (fst (embed_channel message d c bi))) ! k = message_bit message (bi + k))"
      if "bi < 8 * length message" for c bi
      using embed_channel_spec [OF that assms(2)] .
    show "length (lsb_bits d (uint c)) = d" for c :: byte by simp
    show "i < d * length (rgb_of pixels)" using assms by (simp add: length_rgb_of)
    show "0 + i < 8 * length message" using assms by simp
  qed
  then show ?thesis by (simp add: extract_pixel_bits_concat rgb_of_embed_pixels)
qed

lemma bit_push_bit_of_bool: "bit (push_bit k (of_bool b :: int)) n \<longleftrightarrow> n = k \<and> b"
  by (auto simp: bit_push_bit_iff bit_of_bool_iff)

lemma byte_reassemble:
  fixes w :: byte
  shows "foldl (\<lambda>byte j. byte OR push_bit (7 - j) (of_bool (bit w (7 - j)))) 0 [0..<8] = uint w"
proof (rule bit_eqI)
  fix n :: nat
  show "bit (foldl (\<lambda>byte j. byte OR push_bit (7 - j) (of_bool (bit w (7 - j)))) (0::int) [0..<8]) n
        = bit (uint w) n"
  proof (cases "n < 8")
    case True
    then have "n \<in> set [0..<8]" by simp
    then show ?thesis
      by (simp only: upt8 foldl.simps bit_or_iff bit_push_bit_of_bool bit_uint_iff) auto
  next
    case False
    then show ?thesis
      by (simp only: upt8 foldl.simps bit_or_iff bit_push_bit_of_bool bit_uint_iff) auto
  qed
qed

lemma read_byte_message:
  assumes "\<forall>i < 8 * length message. bits ! i = message_bit message i"
    and "8 * length message \<le> length bits" "k < length message"
  shows "read_byte bits (8 * k) = uint (message ! k)"
    and "read_byte_guarded bits (8 * k) = uint (message ! k)"
proof -
  have r: "8 * k + j < length bits \<and> bits ! (8 * k + j) = of_bool (bit (message ! k) (7 - j))"
    if "j \<in> set [0..<8]" for j
    using assms that by (simp add: message_bit_of_bool)
  have "read_byte bits (8 * k)
        = foldl (\<lambda>byte j. byte OR push_bit (7 - j) (of_bool (bit (message ! k) (7 - j)))) 0 [0..<8]"
    unfolding read_byte_def by (rule foldl_cong) (simp_all add: r bit_at_def del: upt.simps)
  then show "read_byte bits (8 * k) = uint (message ! k)" by (simp only: byte_reassemble)
  have "read_byte_guarded bits (8 * k)
        = foldl (\<lambda>byte j. byte OR push_bit (7 - j) (of_bool (bit (message ! k) (7 - j)))) 0 [0..<8]"
    unfolding read_byte_guarded_def by (rule foldl_cong) (simp_all add: r del: upt.simps)
  then show "read_byte_guarded bits (8 * k) = uint (message ! k)" by (simp only: byte_reassemble)
qed

lemma and_255: "(x :: int) AND 0xFF = take_bit 8 x"
  by (simp add: take_bit_eq_mask mask_eq_exp_minus_1)

lemma length_bytes_word:
  fixes L :: int
  defines "b3 \<equiv> (word_of_int (drop_bit 24 L AND 0xFF) :: byte)"
    and "b2 \<equiv> (word_of_int (drop_bit 16 L AND 0xFF) :: byte)"
    and "b1 \<equiv> (word_of_int (drop_bit 8 L AND 0xFF) :: byte)"
    and "b0 \<equiv> (word_of_int (L AND 0xFF) :: byte)"
  shows "foldl (\<lambda>pl b. push_bit 8 pl OR word_of_int (uint b)) (0 :: 32 word) [b3, b2, b1, b0]
         = word_of_int L"
proof (rule bit_word_eqI)
  fix n :: nat
  assume "n < LENGTH(32)"
  then have n: "n < 32" by simp
  consider "n < 8" | "8 \<le> n" "n < 16" | "16 \<le> n" "n < 24" | "24 \<le> n" "n < 32"
    using n by linarith
  then show "bit (foldl (\<lambda>pl b. push_bit 8 pl OR word_of_int (uint b)) (0 :: 32 word) [b3, b2, b1, b0]) n
        \<longleftrightarrow> bit (word_of_int L :: 32 word) n"
    by cases
      (auto simp: b3_def b2_def b1_def b0_def and_255 bit_or_iff bit_push_bit_iff bit_word_of_int_iff
         bit_uint_iff bit_take_bit_iff bit_drop_bit_eq bit_ucast_iff)
qed

lemma length_image_message [simp]: "length (image_message p) = 8 + length p"
  by (simp add: image_message_def MAGIC_HEADER_def Let_def)

lemma length_MAGIC_HEADER [simp]: "length MAGIC_HEADER = 4"
  by (simp add: MAGIC_HEADER_def)

lemma image_message_magic: "i < 4 \<Longrightarrow> image_message p ! i = MAGIC_HEADER ! i"
  by (simp add: image_message_def Let_def nth_append)

lemma image_message_payload: "k < length p \<Longrightarrow> image_message p ! (8 + k) = p ! k"
  by (simp add: image_message_def MAGIC_HEADER_def Let_def nth_append)

lemma image_message_length_word:
  "foldl (\<lambda>pl byteIdx. push_bit 8 pl OR word_of_int (uint (image_message p ! byteIdx)))
     (0 :: 32 word) [4..<8] = word_of_nat (length p)"
  using length_bytes_word [of "int (length p)"]
  by (simp add: upt48 image_message_def MAGIC_HEADER_def Let_def)

lemma extractData_embedded:
  assumes len: "length pixels = 4 * (w * h)"
    and d: "d \<le> 8"
    and small: "length p < 2 ^ 31"
    and fits: "8 * (8 + length p) \<le> w * h * 3 * d"
  shows "extractData \<lparr> width = w, height = h,
           data = embed_pixels (image_message p) d pixels 0 \<rparr> d
         = (if p = [] then None else Some p)"
proof -
  let ?m = "image_message p"
  let ?X = "extract_pixel_bits d (embed_pixels ?m d pixels 0)"
  have lenX: "length ?X = d * (3 * (w * h))"
    by (rule length_extract_pixel_bits) (simp add: len)
  have T: "8 * length ?m \<le> length ?X" using fits by (simp add: lenX mult.commute mult.left_commute)
  have X: "\<forall>i < 8 * length ?m. ?X ! i = message_bit ?m i"
  proof (intro allI impI)
    fix i assume i: "i < 8 * length ?m"
    with T lenX have "i < d * (3 * (w * h))" by simp
    from extract_embed_pixels_nth [OF len d i this] show "?X ! i = message_bit ?m i" .
  qed
  have rb: "read_byte ?X (k * 8) = uint (?m ! k)" if "k < length ?m" for k
    using read_byte_message(1) [OF X T that] by (simp add: mult.commute)
  have rg: "read_byte_guarded ?X (64 + k * 8) = uint (p ! k)" if "k < length p" for k
  proof -
    have "8 + k < length ?m" using that by simp
    from read_byte_message(2) [OF X T this] that show ?thesis
      by (simp add: image_message_payload mult.commute)
  qed
  have magic: "map (\<lambda>byteIdx. read_byte ?X (byteIdx * 8)) [0..<4] = map uint MAGIC_HEADER"
    using rb [of 0] rb [of 1] rb [of 2] rb [of 3]
    by (simp add: upt4 image_message_magic) (simp add: MAGIC_HEADER_def)
  have "foldl (\<lambda>pl byteIdx. push_bit 8 pl OR word_of_int (read_byte ?X (byteIdx * 8)))
          (0 :: 32 word) [4..<8]
        = foldl (\<lambda>pl byteIdx. push_bit 8 pl OR word_of_int (uint (?m ! byteIdx))) (0 :: 32 word) [4..<8]"
  proof (rule foldl_cong [OF refl refl])
    fix a :: "32 word" and x :: nat
    assume "x \<in> set [4..<8]"
    then have "x < length ?m" by auto
    from rb [OF this]
    show "push_bit 8 a OR word_of_int (read_byte ?X (x * 8))
          = push_bit 8 a OR word_of_int (uint (?m ! x))"
      by (simp only:)
  qed
  then have plen: "foldl (\<lambda>pl byteIdx. push_bit 8 pl OR word_of_int (read_byte ?X (byteIdx * 8)))
          (0 :: 32 word) [4..<8] = word_of_nat (length p)"
    by (simp only: image_message_length_word)
  have s: "sint (word_of_nat (length p) :: 32 word) = int (length p)"
  proof -
    have "int (length p) < 2 ^ 31" using small by (simp flip: of_nat_less_iff)
    then show ?thesis by (simp add: signed_of_nat signed_take_bit_int_eq_self)
  qed
  have payload: "map (\<lambda>byteIdx. word_of_int (read_byte_guarded ?X (64 + byteIdx * 8))) [0..<length p] = p"
    by (rule nth_equalityI) (simp_all add: rg)
  have big: "64 \<le> length ?X" using T by simp
  have cap: "int (length p) \<le> (int (length ?X) - 64) div 8" using T by simp
  have mb: "\<not> w * h * 3 * d < 64" using fits by simp
  show ?thesis
    using mb big cap
    by (simp only: extractData_def Let_def ImageData.select_convs magic plen s nat_int payload)
      simp
qed

lemma length_message_bits [simp]: "length (message_bits m) = 8 * length m"
  by (simp add: message_bits_def length_concat_const)

lemma nth_concat_const:
  "(\<And>c. length (rd c) = d) \<Longrightarrow> k < length cs \<Longrightarrow> j < d \<Longrightarrow>
   concat (map rd cs) ! (d * k + j) = rd (cs ! k) ! j"
proof (induction cs arbitrary: k)
  case Nil
  then show ?case by simp
next
  case (Cons c cs)
  show ?case
  proof (cases k)
    case 0
    with Cons.prems show ?thesis by (simp add: nth_append)
  next
    case (Suc k')
    with Cons.prems have "concat (map rd cs) ! (d * k' + j) = rd (cs ! k') ! j"
      by (intro Cons.IH) simp_all
    with Suc Cons.prems(1) show ?thesis by (simp add: nth_append add.assoc)
  qed
qed

lemma nth_message_bits:
  assumes "i < 8 * length m"
  shows "message_bits m ! i = message_bit m i"
proof -
  have k: "i div 8 < length m" and j: "i mod 8 < 8" using assms by auto
  have "concat (map (\<lambda>byte. lsb_bits 8 (uint byte)) m) ! (8 * (i div 8) + i mod 8)
        = lsb_bits 8 (uint (m ! (i div 8))) ! (i mod 8)"
    by (rule nth_concat_const [OF _ k j]) simp
  moreover have "7 - i mod 8 < (8::nat)" by arith
  ultimately show ?thesis
    using j by (simp add: message_bits_def nth_lsb_bits message_bit_of_bool bit_uint_iff)
qed

lemma embed_samples_cells:
  "embed_samples bits d ss bi = cells_embed (embed_sample bits d) (length bits) ss bi"
  by (induction bits d ss bi rule: embed_samples.induct) (simp_all split: prod.splits)

lemma extract_sample_bits_concat:
  "0 < d \<Longrightarrow> length acc + d * length ss \<le> tot \<Longrightarrow>
   extract_sample_bits d tot ss acc = acc @ concat (map (\<lambda>s. lsb_bits d (sint s)) ss)"
proof (induction ss arbitrary: acc)
  case Nil
  then show ?case by simp
next
  case (Cons s ss)
  from Cons.prems have lt: "length acc < tot"
    by (cases d) auto
  from Cons.prems have "length (acc @ lsb_bits d (sint s)) + d * length ss \<le> tot" by simp
  from Cons.IH [OF Cons.prems(1) this] lt show ?case by simp
qed

lemma embed_sample_spec:
  assumes "bi < length bits" "d \<le> 16" and b01: "\<And>i. i < length bits \<Longrightarrow> bits ! i = 0 \<or> bits ! i = 1"
  shows "snd (embed_sample bits d s bi) = min (length bits) (bi + d)
     \<and> (\<forall>k<d. bi + k < length bits \<longrightarrow>
          lsb_bits d (sint (fst (embed_sample bits d s bi))) ! k = bits ! (bi + k))"
proof -
  let ?T = "length bits"
  let ?v = "sint s AND push_bit d (0xFFFF :: int)"
  let ?r = "set_bits_gen (\<lambda>i. bits ! i) ?T d ?v bi"
  have es: "embed_sample bits d s bi = (word_of_int (fst ?r), snd ?r)"
    by (simp add: embed_sample_def set_sample_bits_gen split: prod.splits)
  have low: "\<not> bit ?v j" if "j < d" for j
    using that by (simp add: bit_and_iff bit_push_bit_iff)
  have bits: "lsb_bits d (sint (word_of_int (fst ?r) :: 16 word)) ! k = bits ! (bi + k)"
    if "k < d" "bi + k < ?T" for k
  proof -
    have j: "d - 1 - k < d" "d - 1 - (d - 1 - k) = k" "d - 1 - k < 16" using that assms(2) by simp_all
    have "bit (fst ?r) (d - 1 - k) \<longleftrightarrow> bits ! (bi + k) = 1"
      using bit_set_bits_gen [of ?T "\<lambda>i. bits ! i" d ?v bi "d - 1 - k", OF b01]
        low [OF j(1)] j that by simp
    moreover have "bit (sint (word_of_int (fst ?r) :: 16 word)) (d - 1 - k) \<longleftrightarrow> bit (fst ?r) (d - 1 - k)"
      using j(3) by (simp add: bit_sint_iff bit_word_of_int_iff)
    ultimately show ?thesis
      using b01 [OF that(2)] that by (auto simp: nth_lsb_bits)
  qed
  show ?thesis
    using assms(1) bits by (simp add: es snd_set_bits_gen)
qed

lemma be32_arith:
  fixes n :: nat
  assumes "n < 2 ^ 32"
  shows "(n div 2 ^ 24) mod 256 * 2 ^ 24 + (n div 2 ^ 16) mod 256 * 2 ^ 16
        + (n div 2 ^ 8) mod 256 * 2 ^ 8 + n mod 256 = n"
proof -
  define q1 q2 q3 where "q1 = n div 256" and "q2 = q1 div 256" and "q3 = q2 div 256"
  have e1: "n div 2 ^ 8 = q1" by (simp add: q1_def)
  have e2: "n div 2 ^ 16 = q2" by (simp add: q1_def q2_def div_mult2_eq)
  have e3: "n div 2 ^ 24 = q3" by (simp add: q1_def q2_def q3_def div_mult2_eq)
  have "q3 < 256" using assms by (simp add: q1_def q2_def q3_def div_mult2_eq less_mult_imp_div_less)
  then have m3: "q3 mod 256 = q3" by simp
  have a: "n = q1 * 256 + n mod 256" by (simp add: q1_def)
  have b: "q1 = q2 * 256 + q1 mod 256" by (simp add: q2_def)
  have c: "q2 = q3 * 256 + q2 mod 256" by (simp add: q3_def)
  have "q3 * 2 ^ 24 + q2 mod 256 * 2 ^ 16 + q1 mod 256 * 2 ^ 8 + n mod 256
        = ((q3 * 256 + q2 mod 256) * 256 + q1 mod 256) * 256 + n mod 256"
    by (simp add: algebra_simps)
  also have "\<dots> = n" using a b c by simp
  finally show ?thesis by (simp only: e1 e2 e3 m3)
qed

lemma length_setUint32_be [simp]: "length (setUint32_be n) = 4"
  by (simp add: setUint32_be_def Let_def)

lemma get_set_Uint32_be: "n < 2 ^ 32 \<Longrightarrow> getUint32_be (setUint32_be n) = n"
proof -
  assume n: "n < 2 ^ 32"
  let ?w = "word_of_nat n :: 32 word"
  have u: "unat ?w = n" using n by (simp add: unat_of_nat)
  have a: "unat (ucast (drop_bit k ?w) :: byte) = (n div 2 ^ k) mod 256" for k
  proof -
    have "unat (drop_bit k ?w) = n div 2 ^ k"
      by (simp only: unat_drop_bit_eq u) (simp add: drop_bit_eq_div)
    then show ?thesis by (simp add: unsigned_ucast_eq take_bit_eq_mod)
  qed
  have b: "unat (ucast ?w :: byte) = n mod 256"
    by (simp add: unsigned_ucast_eq take_bit_eq_mod u)
  have m: "n div 16777216 mod 256 = n div 16777216"
    using n by (simp add: less_mult_imp_div_less)
  show ?thesis
    using be32_arith [OF n] by (simp add: getUint32_be_def setUint32_be_def Let_def a b m)
qed

lemma length_wav_message [simp]: "length (wav_message p) = 8 + length p"
  by (simp add: wav_message_def)

lemma wav_message_magic: "i < 4 \<Longrightarrow> wav_message p ! i = MAGIC_HEADER ! i"
  by (simp add: wav_message_def nth_append)

lemma wav_message_length: "i < 4 \<Longrightarrow> wav_message p ! (4 + i) = setUint32_be (length p) ! i"
  by (simp add: wav_message_def nth_append)

lemma wav_message_payload: "k < length p \<Longrightarrow> wav_message p ! (8 + k) = p ! k"
  by (simp add: wav_message_def nth_append)

lemma extractWavData_embedded:
  assumes d: "0 < d" "d \<le> 16"
    and small: "length p < 2 ^ 32"
    and fits: "8 * (8 + length p) \<le> length ss * d"
  shows "extractWavData \<lparr> samples = embed_samples (message_bits (wav_message p)) d ss 0,
           sampleRate = sr, channels = ch, bitsPerSample = bps \<rparr> d
         = (if p = [] then None else Some p)"
proof -
  let ?m = "wav_message p"
  let ?B = "message_bits ?m"
  let ?S = "embed_samples ?B d ss 0"
  let ?X = "concat (map (\<lambda>s. lsb_bits d (sint s)) ?S)"
  have lenS: "length ?S = length ss" by (simp add: embed_samples_cells)
  have ex: "extract_sample_bits d (length ?S * d) ?S [] = ?X"
    using extract_sample_bits_concat [of d "[]" ?S "length ?S * d"] d(1) by (simp add: mult.commute)
  have lenX: "length ?X = d * length ss"
    by (simp add: length_concat_const lenS)
  have T: "8 * length ?m \<le> length ?X" using fits by (simp add: lenX mult.commute)
  have b01: "?B ! i = 0 \<or> ?B ! i = 1" if "i < length ?B" for i
    using that message_bit_01 [of ?m i] by (simp add: nth_message_bits)
  have X: "\<forall>i < 8 * length ?m. ?X ! i = message_bit ?m i"
  proof (intro allI impI)
    fix i assume i: "i < 8 * length ?m"
    have "concat (map (\<lambda>s. lsb_bits d (sint s)) (cells_embed (embed_sample ?B d) (length ?B) ss 0)) ! i
          = ?B ! (0 + i)"
    proof (rule cells_roundtrip [where d = d])
      show "snd (embed_sample ?B d c bi) = min (length ?B) (bi + d) \<and>
            (\<forall>k<d. bi + k < length ?B \<longrightarrow>
               lsb_bits d (sint (fst (embed_sample ?B d c bi))) ! k = ?B ! (bi + k))"
        if "bi < length ?B" for c bi
        using embed_sample_spec [OF that d(2) b01] .
      show "length (lsb_bits d (sint c)) = d" for c :: "16 word" by simp
      show "i < d * length ss" using i T lenX by simp
      show "0 + i < length ?B" using i by simp
    qed
    with i show "?X ! i = message_bit ?m i"
      by (simp add: embed_samples_cells nth_message_bits)
  qed
  have rb: "read_byte ?X (k * 8) = uint (?m ! k)" if "k < length ?m" for k
    using read_byte_message(1) [OF X T that] by (simp add: mult.commute)
  have magic: "map (\<lambda>i. (word_of_int (read_byte ?X (i * 8)) :: byte)) [0..<4] = MAGIC_HEADER"
    by (rule nth_equalityI) (simp_all add: rb wav_message_magic)
  have lb: "map (\<lambda>i. (word_of_int (read_byte ?X (32 + i * 8)) :: byte)) [0..<4] = setUint32_be (length p)"
  proof (rule nth_equalityI)
    show "length (map (\<lambda>i. (word_of_int (read_byte ?X (32 + i * 8)) :: byte)) [0..<4])
          = length (setUint32_be (length p))" by simp
    fix i assume "i < length (map (\<lambda>i. (word_of_int (read_byte ?X (32 + i * 8)) :: byte)) [0..<4])"
    then have i: "i < 4" by simp
    then have "4 + i < length ?m" by simp
    from rb [OF this] have "read_byte ?X (32 + i * 8) = uint (?m ! (4 + i))"
      by (simp add: algebra_simps)
    with i show "map (\<lambda>i. (word_of_int (read_byte ?X (32 + i * 8)) :: byte)) [0..<4] ! i
                 = setUint32_be (length p) ! i"
      by (simp add: wav_message_length del: upt.simps)
  qed
  have rg: "read_byte_guarded ?X (64 + k * 8) = uint (p ! k)" if "k < length p" for k
  proof -
    have "8 + k < length ?m" using that by simp
    from read_byte_message(2) [OF X T this] that show ?thesis
      by (simp add: wav_message_payload mult.commute)
  qed
  have payload: "map (\<lambda>i. word_of_int (read_byte_guarded ?X (64 + i * 8))) [0..<length p] = p"
    by (rule nth_equalityI) (simp_all add: rg)
  have cap: "int (length p) \<le> (int (length ?X) - 64) div 8" using T by simp
  have mb: "\<not> length ?S * d < 64" using fits by (simp add: lenS)
  show ?thesis
    using mb cap
    by (simp only: extractWavData_def Let_def WavData.select_convs ex magic lb
          get_set_Uint32_be [OF small] payload)
      simp
qed

lemma snd_embed_channel:
  "bi \<le> 8 * length message \<Longrightarrow>
   snd (embed_channel message d c bi) = min (8 * length message) (bi + d)"
  by (simp add: embed_channel_def set_lsb_bits_gen snd_set_bits_gen split: prod.splits)
    (metis snd_conv snd_set_bits_gen)

lemma snd_embed_channels:
  "bi \<le> 8 * length message \<Longrightarrow>
   snd (embed_channels message d cs bi) = min (8 * length message) (bi + d * length cs)"
proof (induction cs arbitrary: bi)
  case Nil
  then show ?case by simp
next
  case (Cons c cs)
  show ?case
  proof (cases "bi < 8 * length message")
    case False
    with Cons.prems show ?thesis by simp
  next
    case True
    let ?b = "snd (embed_channel message d c bi)"
    have b: "?b = min (8 * length message) (bi + d)" using Cons.prems by (rule snd_embed_channel)
    then have "?b \<le> 8 * length message" by simp
    from Cons.IH [OF this] b True show ?thesis
      by (simp add: case_prod_beta Let_def min_def add.assoc)
  qed
qed

lemma embed_pixels_alpha:
  "length pixels = 4 * n \<Longrightarrow> k < n \<Longrightarrow> bi \<le> 8 * length message \<Longrightarrow>
   (bi + k * (3 * d) < 8 * length message \<longrightarrow>
      embed_pixels message d pixels bi ! (4 * k + 3) = 255)
   \<and> (8 * length message \<le> bi + k * (3 * d) \<longrightarrow>
      (\<forall>c<4. embed_pixels message d pixels bi ! (4 * k + c) = pixels ! (4 * k + c)))"
proof (induction message d pixels bi arbitrary: n k rule: embed_pixels.induct)
  case (1 message d r g b a rest bi)
  let ?T = "8 * length message"
  show ?case
  proof (cases "bi < ?T")
    case False
    then show ?thesis by simp
  next
    case True
    obtain rgb bi' where ec: "embed_channels message d [r, g, b] bi = (rgb, bi')"
      by (cases "embed_channels message d [r, g, b] bi")
    have lrgb: "length rgb = 3"
      using length_embed_channels [of message d "[r, g, b]" bi] ec by simp
    have bi': "bi' = min ?T (bi + d * 3)"
      using snd_embed_channels [OF "1.prems"(3), of d "[r, g, b]"] ec by simp
    have out: "embed_pixels message d (r # g # b # a # rest) bi
               = rgb @ 255 # embed_pixels message d rest bi'"
      using True ec by simp
    show ?thesis
    proof (cases k)
      case 0
      with True lrgb show ?thesis unfolding out by (simp add: nth_append)
    next
      case (Suc k')
      from "1.prems" obtain n' where n: "n = Suc n'" by (cases n) auto
      with "1.prems" Suc have l: "length rest = 4 * n'" and k': "k' < n'" by simp_all
      have le: "bi' \<le> ?T" using bi' by simp
      have ih: "(bi' + k' * (3 * d) < ?T \<longrightarrow> embed_pixels message d rest bi' ! (4 * k' + 3) = 255)
        \<and> (?T \<le> bi' + k' * (3 * d) \<longrightarrow>
            (\<forall>c<4. embed_pixels message d rest bi' ! (4 * k' + c) = rest ! (4 * k' + c)))"
        using "1.IH" [OF True ec [symmetric] refl l k' le] .
      have idx: "(rgb @ 255 # xs) ! (4 * Suc k' + c) = xs ! (4 * k' + c)" for xs :: "byte list" and c
        using lrgb by (simp add: nth_append)
      have idx2: "(r # g # b # a # xs) ! (4 * Suc k' + c) = xs ! (4 * k' + c)" for xs :: "byte list" and c
        by simp
      have a1: "bi + Suc k' * (3 * d) < ?T \<Longrightarrow> bi' + k' * (3 * d) < ?T"
        using bi' by (simp add: min_def algebra_simps)
      have a2: "?T \<le> bi + Suc k' * (3 * d) \<Longrightarrow> ?T \<le> bi' + k' * (3 * d)"
        using bi' by (simp add: min_def algebra_simps)
      show ?thesis
        unfolding Suc out idx idx2 using ih a1 a2 by blast
    qed
  qed
qed simp_all

section \<open>The LSB engine: results\<close>

lemma embed_then_extract_fits:
  assumes "length (data img) = 4 * (width img * height img)" "d \<le> 8" "length p < 2 ^ 31"
    "8 * (8 + length p) \<le> width img * height img * 3 * d"
  shows "embed_then_extract img p d = Inr (if p = [] then None else Some p)"
  using assms extractData_embedded [OF assms(1,2,3,4), of]
  by (simp add: embed_then_extract_def embedData_def Let_def)

lemma embed_then_extract_wav_fits:
  assumes "0 < d" "d \<le> 16" "length p < 2 ^ 32" "8 * (8 + length p) \<le> length (samples wav) * d"
  shows "embed_then_extract_wav wav p d = Inr (if p = [] then None else Some p)"
  using assms extractWavData_embedded [OF assms, of "sampleRate wav" "channels wav" "bitsPerSample wav"]
  by (simp add: embed_then_extract_wav_def embedWavData_def Let_def wav_message_def)

text \<open>
  C1 (as stated, refuted). The claim covers every message that fits, the empty one
  included. Embedding the empty message succeeds on a 2 x 3 image and on 16 samples at
  depth 4 (64 header bits fit), but extraction then reads the length 0 and returns
  \<open>null\<close>: both extractors reject \<open>payloadLength <= 0\<close>.
\<close>

theorem C1_empty_message_counterexample:
  "embed_then_extract \<lparr> width = 2, height = 3,
      data = [1,2,3,4,5,6,7,8,9,10,11,12,13,14,15,16,17,18,19,20,21,22,23,24] \<rparr> [] 4 = Inr None
   \<and> embed_then_extract_wav \<lparr> samples = [1,2,3,4,5,6,7,8,9,10,11,12,13,14,15,16],
      sampleRate = 44100, channels = 1, bitsPerSample = 16 \<rparr> [] 4 = Inr None"
  using embed_then_extract_fits [of "\<lparr> width = 2, height = 3,
      data = [1,2,3,4,5,6,7,8,9,10,11,12,13,14,15,16,17,18,19,20,21,22,23,24] \<rparr>" 4 "[]"]
    embed_then_extract_wav_fits [of 4 "[]" "\<lparr> samples = [1,2,3,4,5,6,7,8,9,10,11,12,13,14,15,16],
      sampleRate = 44100, channels = 1, bitsPerSample = 16 \<rparr>"]
  by simp

text \<open>
  C1 (amended). For every carrier (an RGBA image whose data has 4 * W * H bytes, or an
  Int16 sample array), every depth d in 1..4 and every non-empty message M of fewer
  than \<open>2 ^ 31\<close> bytes whose framed form (8 + len(M) bytes) fits the carrier's bit
  capacity, embedding M at depth d succeeds and extracting at depth d from the result
  returns exactly M, for the image engine and for the audio engine.
\<close>

theorem C1_roundtrip_nonempty:
  assumes "1 \<le> d" "d \<le> 4" "p \<noteq> []" "length p < 2 ^ 31"
  shows "(length (data img) = 4 * (width img * height img)
          \<and> 8 * (8 + length p) \<le> width img * height img * 3 * d
          \<longrightarrow> embed_then_extract img p d = Inr (Some p))
       \<and> (8 * (8 + length p) \<le> length (samples wav) * d
          \<longrightarrow> embed_then_extract_wav wav p d = Inr (Some p))"
proof (intro conjI impI)
  assume a: "length (data img) = 4 * (width img * height img)
          \<and> 8 * (8 + length p) \<le> width img * height img * 3 * d"
  then show "embed_then_extract img p d = Inr (Some p)"
    using assms embed_then_extract_fits [of img d p] by simp
next
  assume a: "8 * (8 + length p) \<le> length (samples wav) * d"
  have "length p < 2 ^ 32" using assms(4) by simp
  with a show "embed_then_extract_wav wav p d = Inr (Some p)"
    using assms embed_then_extract_wav_fits [of d p wav] by simp
qed

theorem C1_roundtrip_nonempty_witness:
  "embed_then_extract \<lparr> width = 4, height = 2, data = replicate 32 77 \<rparr> [0xAB, 0xCD, 0xEF, 0xFF] 4
     = Inr (Some [0xAB, 0xCD, 0xEF, 0xFF])
   \<and> embed_then_extract_wav \<lparr> samples = replicate 24 (-3), sampleRate = 44100, channels = 1,
          bitsPerSample = 16 \<rparr> [0xAB, 0xCD, 0xEF, 0xFF] 4 = Inr (Some [0xAB, 0xCD, 0xEF, 0xFF])"
  using C1_roundtrip_nonempty [of 4 "[0xAB, 0xCD, 0xEF, 0xFF]"
      "\<lparr> width = 4, height = 2, data = replicate 32 77 \<rparr>"
      "\<lparr> samples = replicate 24 (-3), sampleRate = 44100, channels = 1, bitsPerSample = 16 \<rparr>"]
  by simp

text \<open>
  C5. For every carrier and depth d, embedding an envelope whose length equals
  \<open>floor(bits / 8) - 8\<close> succeeds, and embedding an envelope one byte longer fails with
  the capacity error (\<open>PayloadTooLarge\<close>), for the image engine (bits = W * H * 3 * d)
  and for the audio engine (bits = N * d).
\<close>

theorem C5_capacity_boundary:
  "(int (length p) = int (width img * height img * 3 * d div 8) - 8
      \<longrightarrow> (\<exists>out. embedData img p d = Inr out))
   \<and> (int (length q) = int (width img * height img * 3 * d div 8) - 8 + 1
      \<longrightarrow> (\<exists>need have. embedData img q d = Inl (PayloadTooLarge need have)))
   \<and> (int (length p) = int (length (samples wav) * d div 8) - 8
      \<longrightarrow> (\<exists>out. embedWavData wav p d = Inr out))
   \<and> (int (length q) = int (length (samples wav) * d div 8) - 8 + 1
      \<longrightarrow> (\<exists>need have. embedWavData wav q d = Inl (PayloadTooLarge need have)))"
proof -
  have ok: "\<not> (8 + l) * 8 > n" if "int l = int (n div 8) - 8" for l n :: nat
  proof -
    from that have "8 + l = n div 8" by linarith
    then show ?thesis by simp
  qed
  have bad: "(8 + l) * 8 > n" if "int l = int (n div 8) - 8 + 1" for l n :: nat
  proof -
    from that have "8 + l = n div 8 + 1" by linarith
    moreover have "n < (n div 8 + 1) * 8" by (simp add: dividend_less_times_div mult.commute)
    ultimately show ?thesis by simp
  qed
  show ?thesis
    using ok [of "length p" "width img * height img * 3 * d"]
      bad [of "length q" "width img * height img * 3 * d"]
      ok [of "length p" "length (samples wav) * d"]
      bad [of "length q" "length (samples wav) * d"]
    by (simp add: embedData_def embedWavData_def Let_def wav_message_def mult.commute)
qed

theorem C5_capacity_boundary_witness:
  "(\<exists>out. embedData \<lparr> width = 4, height = 2, data = replicate 32 77 \<rparr> [1, 2, 3, 4] 4 = Inr out)
   \<and> (\<exists>need have. embedData \<lparr> width = 4, height = 2, data = replicate 32 77 \<rparr> [1, 2, 3, 4, 5] 4
        = Inl (PayloadTooLarge need have))
   \<and> (\<exists>out. embedWavData \<lparr> samples = replicate 24 (-3), sampleRate = 44100, channels = 1,
          bitsPerSample = 16 \<rparr> [1, 2, 3, 4] 4 = Inr out)
   \<and> (\<exists>need have. embedWavData \<lparr> samples = replicate 24 (-3), sampleRate = 44100, channels = 1,
          bitsPerSample = 16 \<rparr> [1, 2, 3, 4, 5] 4 = Inl (PayloadTooLarge need have))"
  using C5_capacity_boundary [of "[1, 2, 3, 4]"
      "\<lparr> width = 4, height = 2, data = replicate 32 77 \<rparr>" 4 "[1, 2, 3, 4, 5]"
      "\<lparr> samples = replicate 24 (-3), sampleRate = 44100, channels = 1, bitsPerSample = 16 \<rparr>"]
  by simp

text \<open>
  C8. After a successful image embedding, every pixel the loop visited has alpha 255,
  and every pixel beyond the end of the message is byte-for-byte what it was, alpha
  included. The loop enters pixel k with \<open>bitIndex = min (k * 3 * d) total\<close>, where
  \<open>total = 8 * (8 + len)\<close> is the number of message bits, so the visited pixels, those
  whose RGB bytes receive at least one message bit, are the pixels with
  \<open>k * 3 * d < total\<close>; the others lie beyond the end of the message.
\<close>

theorem C8_alpha_invariance:
  assumes "length (data img) = 4 * (width img * height img)"
    and "8 * (8 + length p) \<le> width img * height img * 3 * d"
    and "k < width img * height img"
  shows "\<exists>out. embedData img p d = Inr out
     \<and> length (data out) = length (data img)
     \<and> (k * (3 * d) < 8 * (8 + length p) \<longrightarrow> data out ! (4 * k + 3) = 255)
     \<and> (8 * (8 + length p) \<le> k * (3 * d) \<longrightarrow>
          (\<forall>c<4. data out ! (4 * k + c) = data img ! (4 * k + c)))"
proof -
  let ?out = "\<lparr> width = width img, height = height img,
                 data = embed_pixels (image_message p) d (data img) 0 \<rparr>"
  have "embedData img p d = Inr ?out"
    using assms(2) by (simp add: embedData_def Let_def mult.commute)
  moreover have "length (data ?out) = length (data img)" by simp
  moreover have "(k * (3 * d) < 8 * (8 + length p) \<longrightarrow> data ?out ! (4 * k + 3) = 255)
     \<and> (8 * (8 + length p) \<le> k * (3 * d) \<longrightarrow>
          (\<forall>c<4. data ?out ! (4 * k + c) = data img ! (4 * k + c)))"
    using embed_pixels_alpha [OF assms(1,3), of 0 "image_message p" d] by simp
  ultimately show ?thesis by blast
qed

theorem C8_alpha_invariance_witness:
  "(\<exists>out. embedData \<lparr> width = 2, height = 4, data = replicate 32 77 \<rparr> [] 4 = Inr out
      \<and> data out ! (4 * 5 + 3) = 255)
   \<and> (\<exists>out. embedData \<lparr> width = 2, height = 4, data = replicate 32 77 \<rparr> [] 4 = Inr out
      \<and> (\<forall>c<4. data out ! (4 * 6 + c) = replicate 32 77 ! (4 * 6 + c)))"
proof
  show "\<exists>out. embedData \<lparr> width = 2, height = 4, data = replicate 32 77 \<rparr> [] 4 = Inr out
      \<and> data out ! (4 * 5 + 3) = 255"
    using C8_alpha_invariance [of "\<lparr> width = 2, height = 4, data = replicate 32 77 \<rparr>" "[]" 4 5]
    by auto
  show "\<exists>out. embedData \<lparr> width = 2, height = 4, data = replicate 32 77 \<rparr> [] 4 = Inr out
      \<and> (\<forall>c<4. data out ! (4 * 6 + c) = replicate 32 77 ! (4 * 6 + c))"
    using C8_alpha_invariance [of "\<lparr> width = 2, height = 4, data = replicate 32 77 \<rparr>" "[]" 4 6]
    by auto
qed

section \<open>PNG scanline reconstruction: results\<close>


declare unfilter_row.simps [simp del]

lemma length_unfilter_row [simp]:
  "length (unfilter_row ft ch prev cur x) = length cur"
  by (induction ft ch prev cur x rule: unfilter_row.induct)
     (subst unfilter_row.simps, simp add: Let_def)

lemma unfilter_row_before:
  "i < x \<Longrightarrow> unfilter_row ft ch prev cur x ! i = cur ! i"
  by (induction ft ch prev cur x rule: unfilter_row.induct)
     (subst unfilter_row.simps, simp add: Let_def)

lemma unfilter_row_at:
  "x \<le> i \<Longrightarrow> i < length cur \<Longrightarrow> 0 < ch \<Longrightarrow>
   unfilter_row ft ch prev cur x ! i =
     unfilter_byte ft (uint (cur ! i))
       (if i \<ge> ch then uint (unfilter_row ft ch prev cur x ! (i - ch)) else 0)
       (uint (prev ! i))
       (if i \<ge> ch then uint (prev ! (i - ch)) else 0)"
proof (induction ft ch prev cur x rule: unfilter_row.induct)
  case (1 ft ch prev cur x)
  let ?v = "unfilter_byte ft (uint (cur ! x))
              (if x \<ge> ch then uint (cur ! (x - ch)) else 0) (uint (prev ! x))
              (if x \<ge> ch then uint (prev ! (x - ch)) else 0)"
  let ?cur' = "cur[x := ?v]"
  have x: "x < length cur" using "1.prems" by simp
  have unf: "unfilter_row ft ch prev cur x = unfilter_row ft ch prev ?cur' (x + 1)"
    using x by (subst unfilter_row.simps) (simp add: Let_def)
  show ?case
  proof (cases "i = x")
    case True
    have "unfilter_row ft ch prev ?cur' (x + 1) ! x = ?cur' ! x"
      by (rule unfilter_row_before) simp
    moreover have "ch \<le> x \<Longrightarrow> unfilter_row ft ch prev ?cur' (x + 1) ! (x - ch) = cur ! (x - ch)"
      using "1.prems"(3) by (subst unfilter_row_before) simp_all
    ultimately show ?thesis using x True by (simp add: unf)
  next
    case False
    with "1.prems" have lt: "x + 1 \<le> i" by simp
    have "unfilter_row ft ch prev ?cur' (x + 1) ! i =
      unfilter_byte ft (uint (?cur' ! i))
       (if i \<ge> ch then uint (unfilter_row ft ch prev ?cur' (x + 1) ! (i - ch)) else 0)
       (uint (prev ! i))
       (if i \<ge> ch then uint (prev ! (i - ch)) else 0)"
      using "1.IH" [OF x refl refl refl lt _ "1.prems"(3)] "1.prems"(2) by simp
    with False show ?thesis by (simp add: unf)
  qed
qed

lemma paeth_refines: "paethPredictor a b c = paeth_spec a b c"
  by (simp add: paethPredictor_def paeth_spec_def Let_def min_def)


lemma length_prev_row_at [simp]:
  "length (prev_row_at w ch dec y) = w * ch"
  by (cases y) (simp_all add: Let_def)

declare prev_row_at.simps(2) [simp del]

lemma length_rgba_of_row [simp]:
  "length (rgba_of_row w ch row) = 4 * w"
  unfolding rgba_of_row_def
  by (subst length_concat_const [where d = 4]) (simp_all add: Let_def)

lemma nth_rgba_of_row:
  assumes "x < w" "c < 4"
  shows "rgba_of_row w ch row ! (4 * x + c)
         = [row ! (x * ch), row ! (x * ch + 1), row ! (x * ch + 2),
            if ch = 4 then row ! (x * ch + 3) else 255] ! c"
proof -
  let ?rd = "\<lambda>x. let srcOffset = x * ch
                  in [row ! srcOffset, row ! (srcOffset + 1), row ! (srcOffset + 2),
                      if ch = 4 then row ! (srcOffset + 3) else 255]"
  have "concat (map ?rd [0..<w]) ! (4 * x + c) = ?rd ([0..<w] ! x) ! c"
    by (rule nth_concat_const) (simp_all add: assms Let_def)
  then show ?thesis using assms by (simp add: rgba_of_row_def Let_def)
qed

lemma reconstruct_scanlines_rows:
  "reconstruct_scanlines rows w ch dec (y0 * (1 + w * ch)) (prev_row_at w ch dec y0)
   = concat (map (\<lambda>y. rgba_of_row w ch (prev_row_at w ch dec (Suc y))) [y0..<y0 + rows])"
proof (induction rows arbitrary: y0)
  case 0
  then show ?case by simp
next
  case (Suc rows)
  let ?cur = "prev_row_at w ch dec (Suc y0)"
  have o: "y0 * (1 + w * ch) + 1 + w * ch = Suc y0 * (1 + w * ch)" by simp
  have step: "reconstruct_scanlines (Suc rows) w ch dec (y0 * (1 + w * ch)) (prev_row_at w ch dec y0)
              = rgba_of_row w ch ?cur
                @ reconstruct_scanlines rows w ch dec (Suc y0 * (1 + w * ch)) ?cur"
    by (simp only: reconstruct_scanlines.simps prev_row_at.simps Let_def o)
  have u: "[y0..<y0 + Suc rows] = y0 # [Suc y0..<Suc y0 + rows]"
    by (simp add: upt_conv_Cons)
  show ?case
    unfolding step u Suc.IH [of "Suc y0"] by simp
qed

lemma decode_scanlines_rows:
  "decode_scanlines w h colorType dec
   = concat (map (\<lambda>y. rgba_of_row w (png_channels colorType)
                          (prev_row_at w (png_channels colorType) dec (Suc y))) [0..<h])"
  using reconstruct_scanlines_rows [of h w "png_channels colorType" dec 0]
  by (simp add: decode_scanlines_def Let_def)

lemma nth_decode_scanlines:
  assumes "y < h" "x < w" "c < png_channels colorType"
  shows "decode_scanlines w h colorType dec ! ((y * w + x) * 4 + c)
         = prev_row_at w (png_channels colorType) dec (Suc y) ! (x * png_channels colorType + c)"
proof -
  let ?ch = "png_channels colorType"
  let ?rd = "\<lambda>y. rgba_of_row w ?ch (prev_row_at w ?ch dec (Suc y))"
  have c4: "c < 4" using assms(3) by (simp add: png_channels_def split: if_splits)
  have j: "4 * x + c < 4 * w" using assms(2) c4 by simp
  have i: "(y * w + x) * 4 + c = 4 * w * y + (4 * x + c)" by (simp add: algebra_simps)
  have "concat (map ?rd [0..<h]) ! (4 * w * y + (4 * x + c)) = ?rd ([0..<h] ! y) ! (4 * x + c)"
    by (rule nth_concat_const) (simp_all add: assms(1) j)
  also have "\<dots> = ?rd y ! (4 * x + c)" using assms(1) by simp
  also have "\<dots> = prev_row_at w ?ch dec (Suc y) ! (x * ?ch + c)"
    using assms(3) c4
    by (subst nth_rgba_of_row [OF assms(2) c4])
       (auto simp add: png_channels_def less_Suc_eq numeral_3_eq_3 eval_nat_numeral
             split: if_splits)
  finally show ?thesis unfolding decode_scanlines_rows i .
qed

lemma length_decode_scanlines:
  "length (decode_scanlines w h colorType dec) = w * h * 4"
  unfolding decode_scanlines_rows
  by (subst length_concat_const [where d = "4 * w"]) simp_all

lemma nth_prev_row_at_Suc:
  assumes "x < w" "c < ch"
  shows "prev_row_at w ch dec (Suc y) ! (x * ch + c)
         = unfilter_byte
             (if y * (1 + w * ch) < length dec then unat (dec ! (y * (1 + w * ch))) else 256)
             (uint (read_or_zero dec (y * (1 + w * ch) + 1 + x * ch + c)))
             (if 0 < x then uint (prev_row_at w ch dec (Suc y) ! ((x - 1) * ch + c)) else 0)
             (uint (prev_row_at w ch dec y ! (x * ch + c)))
             (if 0 < x then uint (prev_row_at w ch dec y ! ((x - 1) * ch + c)) else 0)"
proof -
  let ?off = "y * (1 + w * ch)"
  let ?ft = "if ?off < length dec then unat (dec ! ?off) else 256"
  let ?raw = "map (\<lambda>i. read_or_zero dec (?off + 1 + i)) [0..<w * ch]"
  let ?prev = "prev_row_at w ch dec y"
  let ?i = "x * ch + c"
  have ch: "0 < ch" using assms(2) by simp
  have "?i < x * ch + ch" using assms(2) by simp
  also have "\<dots> = Suc x * ch" by simp
  also have "\<dots> \<le> w * ch" using assms(1) by (intro mult_le_mono1) simp
  finally have i: "?i < w * ch" .
  have r: "prev_row_at w ch dec (Suc y) = unfilter_row ?ft ch ?prev ?raw 0"
    by (simp add: prev_row_at.simps(2) Let_def)
  have g: "ch \<le> ?i \<longleftrightarrow> 0 < x" using assms(2) by (cases x) simp_all
  have s: "0 < x \<Longrightarrow> ?i - ch = (x - 1) * ch + c" by (cases x) simp_all
  have "unfilter_row ?ft ch ?prev ?raw 0 ! ?i =
     unfilter_byte ?ft (uint (?raw ! ?i))
       (if ?i \<ge> ch then uint (unfilter_row ?ft ch ?prev ?raw 0 ! (?i - ch)) else 0)
       (uint (?prev ! ?i))
       (if ?i \<ge> ch then uint (?prev ! (?i - ch)) else 0)"
    by (rule unfilter_row_at) (simp_all add: i ch)
  then show ?thesis
    unfolding r [symmetric] g using i s by (simp add: add.assoc)
qed

text \<open>
  C6. The decoder output, for an image of width \<open>w\<close> and height \<open>h\<close> and the inflated
  stream \<open>decompressed\<close>, has \<open>4 w h\<close> bytes. The stride \<open>ch\<close> is 3 for colour type 2 and
  4 otherwise; scanline \<open>y\<close> starts at offset \<open>y (1 + w ch)\<close> with its filter-type byte
  \<open>ft\<close>, followed by the \<open>w ch\<close> raw bytes. For channel \<open>c < ch\<close> of pixel \<open>(x, y)\<close>, write
  \<open>recon\<close> for the output byte, \<open>left\<close> for the output byte of the same channel one pixel
  to the left (0 in the first pixel of a scanline), \<open>up\<close> for the output byte of the
  same channel in the scanline above (0 in the first scanline) and \<open>upLeft\<close> for the
  one above \<open>left\<close> (0 in the first pixel or the first scanline). Then filter 1 gives
  \<open>raw + left\<close>, filter 2 \<open>raw + up\<close>, filter 3 \<open>raw + floor((left + up) / 2)\<close> and filter
  4 \<open>raw + Paeth(left, up, upLeft)\<close>, all modulo 256, where the Paeth predictor of the
  code is the one of the spec (the first of a, b, c that minimises \<open>|p - x|\<close>); filter
  0 and unknown filter types copy the raw byte; and the alpha byte of an RGB image is
  255.
\<close>

theorem C6_scanline_reconstruction:
  fixes w h colorType x y c :: nat and decompressed :: "byte list"
  assumes "y < h" "x < w" "c < (if colorType = 2 then 3 else 4)"
  defines "ch \<equiv> (if colorType = 2 then 3 else 4 :: nat)"
  defines "out \<equiv> decode_scanlines w h colorType decompressed"
  defines "rowStart \<equiv> y * (1 + w * ch)"
  defines "ft \<equiv> (if rowStart < length decompressed then unat (decompressed ! rowStart) else 256)"
  defines "raw \<equiv> uint (read_or_zero decompressed (rowStart + 1 + x * ch + c))"
  defines "recon \<equiv> uint (out ! ((y * w + x) * 4 + c))"
  defines "left \<equiv> (if 0 < x then uint (out ! ((y * w + (x - 1)) * 4 + c)) else 0)"
  defines "up \<equiv> (if 0 < y then uint (out ! (((y - 1) * w + x) * 4 + c)) else 0)"
  defines "upLeft \<equiv> (if 0 < x \<and> 0 < y then uint (out ! (((y - 1) * w + (x - 1)) * 4 + c)) else 0)"
  shows "length out = w * h * 4
     \<and> (ft = 0 \<longrightarrow> recon = raw)
     \<and> (ft = 1 \<longrightarrow> recon = (raw + left) mod 256)
     \<and> (ft = 2 \<longrightarrow> recon = (raw + up) mod 256)
     \<and> (ft = 3 \<longrightarrow> recon = (raw + (left + up) div 2) mod 256)
     \<and> (ft = 4 \<longrightarrow> recon = (raw + paeth_spec left up upLeft) mod 256)
     \<and> (4 < ft \<longrightarrow> recon = raw)
     \<and> (\<forall>a b c. paethPredictor a b c = paeth_spec a b c)
     \<and> (colorType = 2 \<longrightarrow> out ! ((y * w + x) * 4 + 3) = 255)"
proof -
  have pc: "png_channels colorType = ch" by (simp add: ch_def png_channels_def)
  have c: "c < ch" using assms(3) by (simp add: ch_def)
  have cp: "c < png_channels colorType" using c pc by simp
  let ?row = "prev_row_at w ch decompressed"
  have m: "uint (word_of_int (k AND 0xFF) :: byte) = k mod 256" for k :: int
    by (simp add: and_255 uint_word_of_int take_bit_eq_mod)
  have rec: "recon = uint (?row (Suc y) ! (x * ch + c))"
    unfolding recon_def out_def
    using nth_decode_scanlines [OF assms(1) assms(2) cp, of decompressed] by (simp only: pc)
  have l: "left = (if 0 < x then uint (?row (Suc y) ! ((x - 1) * ch + c)) else 0)"
  proof (cases "0 < x")
    case True
    then have "x - 1 < w" using assms(2) by simp
    from nth_decode_scanlines [OF assms(1) this cp, of decompressed] True
    show ?thesis unfolding left_def out_def by (simp only: pc if_True)
  next
    case False
    then show ?thesis by (simp add: left_def)
  qed
  have z: "?row 0 ! (x * ch + c) = 0 \<and> (0 < x \<longrightarrow> ?row 0 ! ((x - 1) * ch + c) = 0)"
  proof -
    have "x * ch + c < x * ch + ch" using c by simp
    also have "\<dots> = Suc x * ch" by simp
    also have "\<dots> \<le> w * ch" using assms(2) by (intro mult_le_mono1) simp
    finally have i: "x * ch + c < w * ch" .
    have "(x - 1) * ch + c \<le> x * ch + c" by (simp add: mult_le_mono1)
    then have j: "(x - 1) * ch + c < w * ch" using i by (rule le_less_trans)
    show ?thesis using i j by (simp del: One_nat_def)
  qed
  have u: "up = uint (?row y ! (x * ch + c))"
  proof (cases y)
    case 0
    then show ?thesis using z by (simp add: up_def)
  next
    case (Suc y')
    then have "y' < h" using assms(1) by simp
    from nth_decode_scanlines [OF this assms(2) cp, of decompressed] Suc
    show ?thesis unfolding up_def out_def by (simp only: pc) simp
  qed
  have ul: "upLeft = (if 0 < x then uint (?row y ! ((x - 1) * ch + c)) else 0)"
  proof (cases "0 < x")
    case False
    then show ?thesis by (simp add: upLeft_def)
  next
    case True
    then have x: "x - 1 < w" using assms(2) by simp
    show ?thesis
    proof (cases y)
      case 0
      then show ?thesis using z True by (simp add: upLeft_def)
    next
      case (Suc y')
      then have "y' < h" using assms(1) by simp
      from nth_decode_scanlines [OF this x cp, of decompressed] Suc True
      show ?thesis unfolding upLeft_def out_def by (simp only: pc) simp
    qed
  qed
  have b: "recon = uint (unfilter_byte ft raw left up upLeft)"
    unfolding rec l u ul ft_def raw_def rowStart_def
    by (subst nth_prev_row_at_Suc [OF assms(2) c]) (simp add: add.assoc)
  have len: "length out = w * h * 4"
    unfolding out_def by (rule length_decode_scanlines)
  have alpha: "colorType = 2 \<longrightarrow> out ! ((y * w + x) * 4 + 3) = 255"
  proof
    assume ct: "colorType = 2"
    let ?rd = "\<lambda>y. rgba_of_row w 3 (prev_row_at w 3 decompressed (Suc y))"
    have i: "(y * w + x) * 4 + 3 = 4 * w * y + (4 * x + 3)" by (simp add: algebra_simps)
    have "concat (map ?rd [0..<h]) ! (4 * w * y + (4 * x + 3)) = ?rd ([0..<h] ! y) ! (4 * x + 3)"
      using assms(2) by (intro nth_concat_const) (simp_all add: assms(1))
    also have "\<dots> = 255"
      using assms(1) by (simp add: nth_rgba_of_row [OF assms(2)])
    finally show "out ! ((y * w + x) * 4 + 3) = 255"
      unfolding out_def decode_scanlines_rows i by (simp add: ct png_channels_def)
  qed
  have r0: "0 \<le> raw" "raw < 256"
    unfolding raw_def using uint_bounded [of "read_or_zero decompressed (rowStart + 1 + x * ch + c)"]
    by simp_all
  have n: "uint (word_of_int raw :: byte) = raw"
    using r0 by (simp add: uint_word_of_int take_bit_eq_mod)
  show ?thesis
    using len alpha by (simp add: b unfilter_byte_def m n paeth_refines)
qed

theorem C6_scanline_reconstruction_witness:
  "decode_scanlines 2 2 2 [1, 1, 2, 3, 4, 5, 6, 4, 1, 2, 3, 4, 5, 6]
     = [1, 2, 3, 255, 5, 7, 9, 255, 2, 4, 6, 255, 9, 12, 15, 255]
   \<and> (9 :: int) = (4 + paeth_spec 2 5 1) mod 256
   \<and> decode_scanlines 2 2 6 [0, 10, 20, 30, 40, 50, 60, 70, 80, 3, 1, 2, 3, 255, 1, 1, 1, 1]
     = [10, 20, 30, 40, 50, 60, 70, 80, 6, 12, 18, 19, 29, 37, 45, 50]
   \<and> (50 :: int) = (1 + (19 + 80) div 2) mod 256"
proof -
  let ?rgb = "[1, 1, 2, 3, 4, 5, 6, 4, 1, 2, 3, 4, 5, 6] :: byte list"
  let ?rgba = "[0, 10, 20, 30, 40, 50, 60, 70, 80, 3, 1, 2, 3, 255, 1, 1, 1, 1] :: byte list"
  have two: "reconstruct_scanlines 2 w ch dec off prev
             = reconstruct_scanlines (Suc (Suc 0)) w ch dec off prev" for w ch dec off prev
    by (simp add: numeral_2_eq_2)
  have u6: "[0..<6] = [0, 1, 2, 3, 4, 5]" and u8: "[0..<8] = [0, 1, 2, 3, 4, 5, 6, 7]"
    and u2: "[0..<2] = [0, 1]"
    by (simp_all add: upt_rec)
  have a0: "unfilter_row 1 3 [0, 0, 0, 0, 0, 0] [1, 2, 3, 4, 5, 6] 0 = [1, 2, 3, 5, 7, 9]"
    by (simp add: unfilter_row.simps unfilter_byte_def Let_def)
  have a1: "unfilter_row 4 3 [1, 2, 3, 5, 7, 9] [1, 2, 3, 4, 5, 6] 0 = [2, 4, 6, 9, 12, 15]"
    by (simp add: unfilter_row.simps unfilter_byte_def paethPredictor_def Let_def)
  have b0: "unfilter_row 0 4 [0, 0, 0, 0, 0, 0, 0, 0] [10, 20, 30, 40, 50, 60, 70, 80] 0
            = [10, 20, 30, 40, 50, 60, 70, 80]"
    by (simp add: unfilter_row.simps unfilter_byte_def Let_def)
  have b1: "unfilter_row 3 4 [10, 20, 30, 40, 50, 60, 70, 80] [1, 2, 3, 255, 1, 1, 1, 1] 0
            = [6, 12, 18, 19, 29, 37, 45, 50]"
    by (simp add: unfilter_row.simps unfilter_byte_def Let_def)
  have r6: "replicate 6 (0 :: byte) = [0, 0, 0, 0, 0, 0]"
    and r8: "replicate 8 (0 :: byte) = [0, 0, 0, 0, 0, 0, 0, 0]"
    by (simp_all add: eval_nat_numeral)
  have a0': "unfilter_row (Suc 0) 3 (replicate 6 0) [1, 2, 3, 4, 5, 6] 0 = [1, 2, 3, 5, 7, 9]"
    unfolding r6 using a0 by simp
  have b0': "unfilter_row 0 4 (replicate 8 0) [10, 20, 30, 40, 50, 60, 70, 80] 0
            = [10, 20, 30, 40, 50, 60, 70, 80]"
    unfolding r8 using b0 by simp
  have e: "decode_scanlines 2 2 2 ?rgb
           = [1, 2, 3, 255, 5, 7, 9, 255, 2, 4, 6, 255, 9, 12, 15, 255]"
    by (simp add: decode_scanlines_def png_channels_def two Let_def u6 u2 read_or_zero_def
        a0' a1 rgba_of_row_def)
  have f: "decode_scanlines 2 2 6 ?rgba
           = [10, 20, 30, 40, 50, 60, 70, 80, 6, 12, 18, 19, 29, 37, 45, 50]"
    by (simp add: decode_scanlines_def png_channels_def two Let_def u8 u2 read_or_zero_def
        b0' b1 rgba_of_row_def)
  have h: "(1 :: nat) < 2" "(0 :: nat) < (if (2 :: nat) = 2 then 3 else 4)"
    "(3 :: nat) < (if (6 :: nat) = 2 then 3 else 4)"
    by simp_all
  from C6_scanline_reconstruction [where w = 2 and h = 2 and colorType = 2 and x = 1
      and y = 1 and c = 0 and decompressed = ?rgb, OF h(1) h(1) h(2)]
  have p: "(9 :: int) = (4 + paeth_spec 2 5 1) mod 256"
    by (simp add: e read_or_zero_def)
  from C6_scanline_reconstruction [where w = 2 and h = 2 and colorType = 6 and x = 1
      and y = 1 and c = 3 and decompressed = ?rgba, OF h(1) h(1) h(3)]
  have q: "(50 :: int) = (1 + (19 + 80) div 2) mod 256"
    by (simp add: f read_or_zero_def)
  show ?thesis using e f p q by (intro conjI)
qed

section \<open>The crypto envelope and the payload container: results\<close>

lemma handleDecrypt_errors:
  "Error m c \<in> set (handleDecrypt env active bs pw) \<Longrightarrow> m = GENERIC_ERROR \<and> c = ''DECRYPT_ERROR''"
  unfolding handleDecrypt_def Let_def
  by (auto split: if_splits sum.splits)

lemma handleDecrypt_outcome:
  "active 0 \<Longrightarrow> active 1 \<Longrightarrow> active 2 \<Longrightarrow>
   (\<exists>r. last (handleDecrypt env active bs pw) = Complete r)
   \<or> last (handleDecrypt env active bs pw) = Error GENERIC_ERROR ''DECRYPT_ERROR''"
  unfolding handleDecrypt_def Let_def
  by (auto split: if_splits sum.splits)

lemma handleDecrypt_complete:
  assumes "Complete r \<in> set (handleDecrypt env active bs pw)"
  shows "49 \<le> length bs \<and> getUint32_le (js_slice bs 1 5) = 16
     \<and> (\<exists>key pt. deriveKeyPBKDF2 env pw (js_slice bs 5 21)
                     (if bs ! 0 AND FLAG_HIGH_SECURITY \<noteq> 0 then 310000 else 100000) = Inr key
          \<and> aes_gcm_decrypt env key (js_slice bs 21 33) (drop 33 bs) = Inr pt
          \<and> (if bs ! 0 AND FLAG_COMPRESSED \<noteq> 0 then decompressData env pt = Inr r else r = pt))"
  using assms unfolding handleDecrypt_def Let_def
  by (auto split: if_splits sum.splits)

lemma unpackPayload_errors:
  "unpackPayload jenv buffer = Inl e \<Longrightarrow> e = InvalidPayloadFormat"
  unfolding unpackPayload_def Let_def
  by (auto split: if_splits option.splits)

lemma length_setUint32_le [simp]: "length (setUint32_le n) = 4"
  by (simp add: setUint32_le_def Let_def)

lemma get_set_Uint32_le: "n < 2 ^ 32 \<Longrightarrow> getUint32_le (setUint32_le n) = n"
proof -
  assume n: "n < 2 ^ 32"
  let ?w = "word_of_nat n :: 32 word"
  have u: "unat ?w = n" using n by (simp add: unat_of_nat)
  have a: "unat (ucast (drop_bit k ?w) :: byte) = (n div 2 ^ k) mod 256" for k
  proof -
    have "unat (drop_bit k ?w) = n div 2 ^ k"
      by (simp only: unat_drop_bit_eq u) (simp add: drop_bit_eq_div)
    then show ?thesis by (simp add: unsigned_ucast_eq take_bit_eq_mod)
  qed
  have b: "unat (ucast ?w :: byte) = n mod 256"
    by (simp add: unsigned_ucast_eq take_bit_eq_mod u)
  have m: "n div 16777216 mod 256 = n div 16777216"
    using n by (simp add: less_mult_imp_div_less)
  show ?thesis
    using be32_arith [OF n] by (simp add: getUint32_le_def setUint32_le_def Let_def a b m)
qed

lemma setUint32_le_16: "setUint32_le 16 = [16, 0, 0, 0]"
  by (simp add: setUint32_le_def Let_def drop_bit_eq_div)

lemma slice_header:
  "length l = 4 \<Longrightarrow> js_slice (v # l @ rest) 1 5 = l"
  by (simp add: js_slice_def)

lemma slice_meta:
  assumes "length l = 4"
  shows "js_slice (v # l @ meta @ rest) 5 (5 + length meta) = meta"
proof -
  have "v # l @ meta @ rest = (v # l) @ meta @ rest" by simp
  moreover have "length (v # l) = 5" using assms by simp
  ultimately have "drop 5 (v # l @ meta @ rest) = meta @ rest"
    by (metis append_eq_conv_conj)
  then show ?thesis by (simp add: js_slice_def)
qed

lemma drop_payload:
  assumes "length l = 4"
  shows "drop (5 + length meta) (v # l @ meta @ rest) = rest"
proof -
  have "v # l @ meta @ rest = (v # l @ meta) @ rest" by simp
  moreover have "length (v # l @ meta) = 5 + length meta" using assms by simp
  ultimately show ?thesis by (metis append_eq_conv_conj)
qed

lemma unpack_of_pack:
  assumes "length mb \<le> MAX_METADATA_LENGTH"
  shows "unpackPayload env ([METADATA_VERSION] @ setUint32_le (length mb) @ mb @ D) =
     (if mb = [] then Inl InvalidPayloadFormat
      else case parse_utf8 env mb of
             None \<Rightarrow> Inl InvalidPayloadFormat
           | Some parsed \<Rightarrow> if \<not> isValidMetadata parsed then Inl InvalidPayloadFormat
                            else Inr (D, metadata_of_json parsed))"
proof -
  have lt: "length mb < 2 ^ 32" using assms by (simp add: MAX_METADATA_LENGTH_def)
  have g: "getUint32_le (js_slice (METADATA_VERSION # setUint32_le (length mb) @ mb @ D) 1 5) = length mb"
    by (simp only: slice_header [OF length_setUint32_le] get_set_Uint32_le [OF lt])
  have g': "getUint32_le (js_slice (METADATA_VERSION # setUint32_le (length mb) @ mb @ D) (Suc 0) 5)
            = length mb"
    using g by simp
  show ?thesis
    using assms
    by (simp add: unpackPayload_def Let_def g' slice_meta drop_payload split: option.splits)
qed


lemma not_dangerous_underscore: "\<not> dangerous_char 0x5F"
  by (simp add: dangerous_char_def)

lemma sanitize_name_idem: "sanitize_name (sanitize_name n) = sanitize_name n"
  by (simp add: sanitize_name_def take_map not_dangerous_underscore)

lemma sanitize_name_empty: "sanitize_name n = [] \<longleftrightarrow> n = []"
  by (simp add: sanitize_name_def MAX_FILENAME_LENGTH_def)

lemma js_keys:
  "js ''type'' \<noteq> js ''timestamp''" "js ''type'' \<noteq> js ''name''" "js ''type'' \<noteq> js ''mimeType''"
  "js ''timestamp'' \<noteq> js ''name''" "js ''timestamp'' \<noteq> js ''mimeType''"
  "js ''name'' \<noteq> js ''mimeType''" "js ''text'' \<noteq> js ''file''"
  by (simp_all add: js_def)

lemma sanitized_valid:
  assumes "pm_timestamp meta = Finite t"
  shows "isValidMetadata (meta_to_json (sanitizeMeta meta))"
    and "metadata_of_json (meta_to_json (sanitizeMeta meta)) = sanitizeMeta meta"
  using assms js_keys js_keys [symmetric]
  by (auto simp: isValidMetadata_def meta_to_json_def sanitizeMeta_def get_prop_def is_number_def
      is_string_def number_to_json_def metadata_of_json_def string_prop_def sanitize_name_idem
      sanitize_name_empty split: option.splits)

lemma nan_invalid:
  "\<not> isValidMetadata (meta_to_json (sanitizeMeta
       \<lparr> pm_type = js ''file'', pm_name = None, pm_mimeType = None, pm_timestamp = NaN \<rparr>))"
  using js_keys js_keys [symmetric]
  by (simp add: isValidMetadata_def meta_to_json_def sanitizeMeta_def get_prop_def is_number_def
      number_to_json_def)

text \<open>
  C2 (as stated, refuted). The claim lists the failures of \<open>unpackPayload\<close> (bounds
  violation, malformed metadata JSON, schema violation) among those that surface with
  the text "Decryption failed - wrong password or corrupted data". \<open>unpackPayload\<close>
  throws its own text, "Invalid payload format": here for a container whose metadata
  length is 0 and for one whose metadata is the single character \<open>{\<close>, malformed JSON.
\<close>

theorem C2_unpack_error_counterexample:
  "unpackPayload sample_json_env [1, 0, 0, 0, 0] = Inl InvalidPayloadFormat
   \<and> unpackPayload sample_json_env [1, 1, 0, 0, 0, 0x7B] = Inl InvalidPayloadFormat
   \<and> payload_error_message InvalidPayloadFormat = ''Invalid payload format''
   \<and> payload_error_message InvalidPayloadFormat \<noteq> GENERIC_ERROR"
  by (simp add: unpackPayload_def sample_json_env_def METADATA_VERSION_def MAX_METADATA_LENGTH_def
      getUint32_le_def js_slice_def payload_error_message_def GENERIC_ERROR_def ascii_def Let_def)

text \<open>
  C2 (amended). Every failure inside \<open>handleDecrypt\<close> (envelope shorter than 49 bytes,
  salt-length field other than 16, key-derivation failure, AES-GCM failure as for a
  wrong password or a truncated or tampered ciphertext, decompression failure) is
  posted as the one error "Decryption failed - wrong password or corrupted data" with
  code DECRYPT_ERROR: no other error message is ever posted, a run that is not
  cancelled ends in a result or in that error, and a result is posted only when every
  check and every operation has succeeded. Every failure of \<open>unpackPayload\<close> carries
  the one text "Invalid payload format".
\<close>

theorem C2_uniform_errors:
  "(Error m c \<in> set (handleDecrypt env active bs pw) \<longrightarrow> m = GENERIC_ERROR \<and> c = ''DECRYPT_ERROR'')
   \<and> (active 0 \<and> active 1 \<and> active 2 \<longrightarrow>
        (\<exists>r. last (handleDecrypt env active bs pw) = Complete r)
        \<or> last (handleDecrypt env active bs pw) = Error GENERIC_ERROR ''DECRYPT_ERROR'')
   \<and> (Complete r \<in> set (handleDecrypt env active bs pw) \<longrightarrow>
        49 \<le> length bs \<and> getUint32_le (js_slice bs 1 5) = 16
        \<and> (\<exists>key pt. deriveKeyPBKDF2 env pw (js_slice bs 5 21)
                        (if bs ! 0 AND FLAG_HIGH_SECURITY \<noteq> 0 then 310000 else 100000) = Inr key
             \<and> aes_gcm_decrypt env key (js_slice bs 21 33) (drop 33 bs) = Inr pt
             \<and> (if bs ! 0 AND FLAG_COMPRESSED \<noteq> 0 then decompressData env pt = Inr r else r = pt)))
   \<and> (unpackPayload jenv buffer = Inl e \<longrightarrow> payload_error_message e = ''Invalid payload format'')"
  using handleDecrypt_errors [of m c env active bs pw]
    handleDecrypt_outcome [of active env bs pw]
    handleDecrypt_complete [of r env active bs pw]
    unpackPayload_errors [of jenv buffer e]
  by (auto simp: payload_error_message_def)

theorem C2_uniform_errors_witness:
  "handleDecrypt sample_crypto_env (\<lambda>i. True) [] ''secret''
     = [Progress 10 ''decrypt'' ''Unpacking data...'', Error GENERIC_ERROR ''DECRYPT_ERROR'']
   \<and> last (handleDecrypt sample_crypto_env (\<lambda>i. True)
        
          [0, 16, 0, 0, 0, 7, 7, 7, 7, 7, 7, 7, 7, 7, 7, 7, 7, 7, 7,
           7, 7, 7, 7, 7, 7, 7, 7, 7, 7, 7, 7, 7, 7,
           0, 0, 0, 0, 0, 0, 0, 0, 0, 0, 0, 0, 0, 0, 0, 1] ''secret'')
     = Error GENERIC_ERROR ''DECRYPT_ERROR''
   \<and> last (handleDecrypt sample_crypto_env (\<lambda>i. True)
        
          [0, 16, 0, 0, 0, 7, 7, 7, 7, 7, 7, 7, 7, 7, 7, 7, 7, 7, 7,
           7, 7, 7, 7, 7, 7, 7, 7, 7, 7, 7, 7, 7, 7,
           9, 0, 0, 0, 0, 0, 0, 0, 0, 0, 0, 0, 0, 0, 0, 0, 0] ''secret'')
     = Complete [9]
   \<and> unpackPayload sample_json_env [1, 0, 0, 0, 0] = Inl InvalidPayloadFormat
   \<and> payload_error_message InvalidPayloadFormat = ''Invalid payload format''"
proof -
  have a: "handleDecrypt sample_crypto_env (\<lambda>i. True) [] ''secret''
     = [Progress 10 ''decrypt'' ''Unpacking data...'', Error GENERIC_ERROR ''DECRYPT_ERROR'']"
    by (simp add: handleDecrypt_def Let_def)
  have b: "handleDecrypt sample_crypto_env (\<lambda>i. True)
        
          [0, 16, 0, 0, 0, 7, 7, 7, 7, 7, 7, 7, 7, 7, 7, 7, 7, 7, 7,
           7, 7, 7, 7, 7, 7, 7, 7, 7, 7, 7, 7, 7, 7,
           0, 0, 0, 0, 0, 0, 0, 0, 0, 0, 0, 0, 0, 0, 0, 1] ''secret''
     = [Progress 10 ''decrypt'' ''Unpacking data...'',
        Progress 30 ''decrypt'' ''Deriving key (PBKDF2 100K)...'',
        Progress 60 ''decrypt'' ''Decrypting...'',
        Error GENERIC_ERROR ''DECRYPT_ERROR'']"
    by (simp add: handleDecrypt_def Let_def sample_crypto_env_def sample_tag_def getUint32_le_def js_slice_def
        FLAG_COMPRESSED_def FLAG_HIGH_SECURITY_def)
  have c: "handleDecrypt sample_crypto_env (\<lambda>i. True)
        
          [0, 16, 0, 0, 0, 7, 7, 7, 7, 7, 7, 7, 7, 7, 7, 7, 7, 7, 7,
           7, 7, 7, 7, 7, 7, 7, 7, 7, 7, 7, 7, 7, 7,
           9, 0, 0, 0, 0, 0, 0, 0, 0, 0, 0, 0, 0, 0, 0, 0, 0] ''secret''
     = [Progress 10 ''decrypt'' ''Unpacking data...'',
        Progress 30 ''decrypt'' ''Deriving key (PBKDF2 100K)...'',
        Progress 60 ''decrypt'' ''Decrypting...'',
        Progress 80 ''decrypt'' ''Processing...'',
        Progress 100 ''decrypt'' ''Complete'',
        Complete [9]]"
    by (simp add: handleDecrypt_def Let_def sample_crypto_env_def sample_tag_def getUint32_le_def js_slice_def
        FLAG_COMPRESSED_def FLAG_HIGH_SECURITY_def)
  have d: "unpackPayload sample_json_env [1, 0, 0, 0, 0] = Inl InvalidPayloadFormat"
    by (simp add: unpackPayload_def METADATA_VERSION_def getUint32_le_def js_slice_def Let_def)
  show ?thesis
    using C2_uniform_errors [of GENERIC_ERROR "''DECRYPT_ERROR''" sample_crypto_env "\<lambda>i. True" "[]"
        "''secret''" "[9]" sample_json_env "[1, 0, 0, 0, 0]" InvalidPayloadFormat]
      C2_uniform_errors [of GENERIC_ERROR "''DECRYPT_ERROR''" sample_crypto_env "\<lambda>i. True"
        "[0, 16, 0, 0, 0, 7, 7, 7, 7, 7, 7, 7, 7, 7, 7, 7, 7, 7, 7, 7, 7, 7, 7, 7, 7, 7, 7, 7, 7, 7, 7, 7, 7, 9, 0, 0, 0, 0, 0, 0, 0, 0, 0, 0, 0, 0, 0, 0, 0, 0]"
        "''secret''" "[9]" sample_json_env "[1, 0, 0, 0, 0]" InvalidPayloadFormat]
    by (simp add: a b c d)
qed

lemma flag_bits:
  "bit ((if compress then FLAG_COMPRESSED else 0) OR (if hs then FLAG_HIGH_SECURITY else 0)) 0 = compress"
  "bit ((if compress then FLAG_COMPRESSED else 0) OR (if hs then FLAG_HIGH_SECURITY else 0)) (Suc 0) = hs"
  by (simp_all add: FLAG_COMPRESSED_def FLAG_HIGH_SECURITY_def bit_or_iff)

lemma getRandomValues_16:
  "getRandomValues rnd k (new_Uint8Array 16) = map (rnd k) [0..<16]"
  by (simp add: getRandomValues_def new_Uint8Array_def)

lemma getRandomValues_12:
  "getRandomValues rnd k (new_Uint8Array 12) = map (rnd k) [0..<12]"
  by (simp add: getRandomValues_def new_Uint8Array_def)

lemma handleEncrypt_complete:
  assumes "Complete packed \<in> set (handleEncrypt env active rnd payload pw hs compress)"
  shows "\<exists>dte key ct.
           (if compress then compressData env payload else Inr payload) = Inr dte
         \<and> deriveKeyPBKDF2 env pw (map (rnd 0) [0..<16]) (if hs then 310000 else 100000) = Inr key
         \<and> aes_gcm_encrypt env key (map (rnd 1) [0..<12]) dte = Inr ct
         \<and> packed = [(if compress then FLAG_COMPRESSED else 0) OR (if hs then FLAG_HIGH_SECURITY else 0)]
                     @ setUint32_le 16 @ map (rnd 0) [0..<16] @ map (rnd 1) [0..<12] @ ct"
  using assms unfolding handleEncrypt_def Let_def getRandomValues_16 getRandomValues_12
  by (auto split: if_splits sum.splits)

lemma handleEncrypt_success:
  assumes "active 0" "active 1" "active 2"
    and "(if compress then compressData env payload else Inr payload) = Inr dte"
    and "deriveKeyPBKDF2 env pw (map (rnd 0) [0..<16]) (if hs then 310000 else 100000) = Inr key"
    and "aes_gcm_encrypt env key (map (rnd 1) [0..<12]) dte = Inr ct"
  shows "last (handleEncrypt env active rnd payload pw hs compress)
         = Complete ([(if compress then FLAG_COMPRESSED else 0) OR (if hs then FLAG_HIGH_SECURITY else 0)]
                     @ setUint32_le 16 @ map (rnd 0) [0..<16] @ map (rnd 1) [0..<12] @ ct)"
  using assms unfolding handleEncrypt_def Let_def getRandomValues_16 getRandomValues_12
  by (auto split: if_splits sum.splits)

lemma handleDecrypt_salt_length:
  assumes "active 0" "length bs < 49 \<or> getUint32_le (js_slice bs 1 5) \<noteq> 16"
  shows "handleDecrypt env active bs pw
         = [Progress 10 ''decrypt'' ''Unpacking data...'', Error GENERIC_ERROR ''DECRYPT_ERROR'']"
  using assms unfolding handleDecrypt_def Let_def by (elim disjE) simp_all

text \<open>
  C4. The salt that encryption uses is the 16 bytes of the first random draw and the IV
  the 12 bytes of the second one, whatever the random source delivers. A completed
  encryption posts an envelope made of the flag byte (bit 0 = compressed, bit 1 = high
  security), the salt length 16 as little-endian u32, these 16 salt bytes, these 12 IV
  bytes and the output of AES-GCM encryption (ciphertext with its tag, as the primitive
  returns it), 33 bytes before the ciphertext in all; and on decode an envelope whose
  salt-length field is not 16 (or that is shorter than 49 bytes) is answered with the
  decrypt failure right after the first progress message, before any key derivation,
  whatever the primitives are.
\<close>

theorem C4_envelope_layout:
  fixes rnd :: "nat \<Rightarrow> nat \<Rightarrow> byte"
  defines "salt \<equiv> map (rnd 0) [0..<16]"
    and "iv \<equiv> map (rnd 1) [0..<12]"
  shows "(Complete packed \<in> set (handleEncrypt env active rnd payload pw hs compress) \<longrightarrow>
           (\<exists>dte key ct.
               (if compress then compressData env payload else Inr payload) = Inr dte
             \<and> deriveKeyPBKDF2 env pw salt (if hs then 310000 else 100000) = Inr key
             \<and> aes_gcm_encrypt env key iv dte = Inr ct
             \<and> packed = packed ! 0 # [16, 0, 0, 0] @ salt @ iv @ ct
             \<and> bit (packed ! 0) 0 = compress \<and> bit (packed ! 0) 1 = hs
             \<and> js_slice packed 1 5 = [16, 0, 0, 0]
             \<and> js_slice packed 5 21 = salt \<and> js_slice packed 21 33 = iv \<and> drop 33 packed = ct
             \<and> length salt = 16 \<and> length iv = 12 \<and> length packed = 33 + length ct))
       \<and> (active 0 \<and> active 1 \<and> active 2
           \<and> (if compress then compressData env payload else Inr payload) = Inr dte
           \<and> deriveKeyPBKDF2 env pw salt (if hs then 310000 else 100000) = Inr key
           \<and> aes_gcm_encrypt env key iv dte = Inr ct \<longrightarrow>
           (\<exists>flag. last (handleEncrypt env active rnd payload pw hs compress)
                     = Complete (flag # [16, 0, 0, 0] @ salt @ iv @ ct)
                   \<and> bit flag 0 = compress \<and> bit flag 1 = hs))
       \<and> (active 0 \<and> (length bs < 49 \<or> getUint32_le (js_slice bs 1 5) \<noteq> 16) \<longrightarrow>
           handleDecrypt env active bs pw
           = [Progress 10 ''decrypt'' ''Unpacking data...'', Error GENERIC_ERROR ''DECRYPT_ERROR''])"
proof (intro conjI impI)
  have ls: "length salt = 16" and li: "length iv = 12"
    by (simp_all add: salt_def iv_def)
  assume "Complete packed \<in> set (handleEncrypt env active rnd payload pw hs compress)"
  from handleEncrypt_complete [OF this] obtain dte key ct where
    h: "(if compress then compressData env payload else Inr payload) = Inr dte"
      "deriveKeyPBKDF2 env pw salt (if hs then 310000 else 100000) = Inr key"
      "aes_gcm_encrypt env key iv dte = Inr ct"
      "packed = [(if compress then FLAG_COMPRESSED else 0) OR (if hs then FLAG_HIGH_SECURITY else 0)]
                @ setUint32_le 16 @ salt @ iv @ ct"
    unfolding salt_def iv_def by blast
  let ?f = "(if compress then FLAG_COMPRESSED else 0) OR (if hs then FLAG_HIGH_SECURITY else 0)"
  have p: "packed = ?f # [16, 0, 0, 0] @ salt @ iv @ ct"
    using h(4) by (simp add: setUint32_le_16)
  have s1: "js_slice packed 1 5 = [16, 0, 0, 0]"
    unfolding p by (simp add: js_slice_def)
  have d5: "drop 5 packed = salt @ iv @ ct" unfolding p by simp
  have d21: "drop 21 packed = iv @ ct"
    using arg_cong [OF d5, of "drop 16"] ls by simp
  have d33: "drop 33 packed = ct"
    using arg_cong [OF d21, of "drop 12"] li by simp
  have s2: "js_slice packed 5 21 = salt" using d5 ls by (simp add: js_slice_def)
  have s3: "js_slice packed 21 33 = iv" using d21 li by (simp add: js_slice_def)
  have lp: "length packed = 33 + length ct"
    by (subst p) (simp add: ls li)
  have "packed = packed ! 0 # [16, 0, 0, 0] @ salt @ iv @ ct
        \<and> bit (packed ! 0) 0 = compress \<and> bit (packed ! 0) 1 = hs"
    using flag_bits [of compress hs] by (subst (1) p, simp add: p)
  with h(1,2,3) s1 s2 s3 d33 ls li lp
  show "\<exists>dte key ct.
               (if compress then compressData env payload else Inr payload) = Inr dte
             \<and> deriveKeyPBKDF2 env pw salt (if hs then 310000 else 100000) = Inr key
             \<and> aes_gcm_encrypt env key iv dte = Inr ct
             \<and> packed = packed ! 0 # [16, 0, 0, 0] @ salt @ iv @ ct
             \<and> bit (packed ! 0) 0 = compress \<and> bit (packed ! 0) 1 = hs
             \<and> js_slice packed 1 5 = [16, 0, 0, 0]
             \<and> js_slice packed 5 21 = salt \<and> js_slice packed 21 33 = iv \<and> drop 33 packed = ct
             \<and> length salt = 16 \<and> length iv = 12 \<and> length packed = 33 + length ct"
    by blast
next
  assume a: "active 0 \<and> active 1 \<and> active 2
           \<and> (if compress then compressData env payload else Inr payload) = Inr dte
           \<and> deriveKeyPBKDF2 env pw salt (if hs then 310000 else 100000) = Inr key
           \<and> aes_gcm_encrypt env key iv dte = Inr ct"
  let ?f = "(if compress then FLAG_COMPRESSED else 0) OR (if hs then FLAG_HIGH_SECURITY else 0)"
  have "last (handleEncrypt env active rnd payload pw hs compress)
        = Complete (?f # [16, 0, 0, 0] @ salt @ iv @ ct)"
    using handleEncrypt_success [of active compress env payload dte pw rnd hs key ct] a
    unfolding salt_def iv_def
    by (simp add: setUint32_le_16)
  then show "\<exists>flag. last (handleEncrypt env active rnd payload pw hs compress)
                     = Complete (flag # [16, 0, 0, 0] @ salt @ iv @ ct)
                   \<and> bit flag 0 = compress \<and> bit flag 1 = hs"
    using flag_bits [of compress hs] by auto
next
  assume "active 0 \<and> (length bs < 49 \<or> getUint32_le (js_slice bs 1 5) \<noteq> 16)"
  then show "handleDecrypt env active bs pw
           = [Progress 10 ''decrypt'' ''Unpacking data...'', Error GENERIC_ERROR ''DECRYPT_ERROR'']"
    using handleDecrypt_salt_length by blast
qed

theorem C4_envelope_layout_witness:
  "last (handleEncrypt sample_crypto_env (\<lambda>i. True) (\<lambda>k i. if k = 0 then 7 else 8)
           [1, 2, 3] ''secret'' True False)
     = Complete ([2, 16, 0, 0, 0]
                 @ [7, 7, 7, 7, 7, 7, 7, 7, 7, 7, 7, 7, 7, 7, 7, 7]
                 @ [8, 8, 8, 8, 8, 8, 8, 8, 8, 8, 8, 8]
                 @ [1, 2, 3] @ sample_tag)
   \<and> handleDecrypt sample_crypto_env (\<lambda>i. True)
        [0, 17, 0, 0, 0, 7, 7, 7, 7, 7, 7, 7, 7, 7, 7, 7, 7, 7, 7, 7, 7, 7,
         8, 8, 8, 8, 8, 8, 8, 8, 8, 8, 8, 8,
         0, 0, 0, 0, 0, 0, 0, 0, 0, 0, 0, 0, 0, 0, 0, 0] ''secret''
     = [Progress 10 ''decrypt'' ''Unpacking data...'', Error GENERIC_ERROR ''DECRYPT_ERROR'']"
proof -
  let ?rnd = "\<lambda>(k :: nat) (i :: nat). if k = 0 then 7 else (8 :: byte)"
  have s: "map (?rnd 0) [0..<16] = [7, 7, 7, 7, 7, 7, 7, 7, 7, 7, 7, 7, 7, 7, 7, 7]"
    by (simp add: upt_rec)
  have i: "map (?rnd 1) [0..<12] = [8, 8, 8, 8, 8, 8, 8, 8, 8, 8, 8, 8]"
    by (simp add: upt_rec)
  have g: "getUint32_le (js_slice
        [0, 17, 0, 0, 0, 7, 7, 7, 7, 7, 7, 7, 7, 7, 7, 7, 7, 7, 7, 7, 7, 7,
         8, 8, 8, 8, 8, 8, 8, 8, 8, 8, 8, 8,
         0, 0, 0, 0, 0, 0, 0, 0, 0, 0, 0, 0, 0, 0, 0, 0 :: byte] 1 5) = 17"
    by (simp add: getUint32_le_def js_slice_def)
  have a: "handleEncrypt sample_crypto_env (\<lambda>i. True) ?rnd [1, 2, 3] ''secret'' True False
     = [Progress 10 ''encrypt'' ''Preparing data...'',
        Progress 40 ''encrypt'' ''Generating keys (PBKDF2 310K)...'',
        Progress 70 ''encrypt'' ''Encrypting...'',
        Progress 90 ''encrypt'' ''Packing...'',
        Progress 100 ''encrypt'' ''Complete'',
        Complete ([2, 16, 0, 0, 0]
                 @ [7, 7, 7, 7, 7, 7, 7, 7, 7, 7, 7, 7, 7, 7, 7, 7]
                 @ [8, 8, 8, 8, 8, 8, 8, 8, 8, 8, 8, 8]
                 @ [1, 2, 3] @ sample_tag)]"
    unfolding handleEncrypt_def getRandomValues_16 getRandomValues_12 s i
    by (simp add: Let_def sample_crypto_env_def setUint32_le_def
        drop_bit_eq_div FLAG_HIGH_SECURITY_def)
  note t = C4_envelope_layout [of
        "[2, 16, 0, 0, 0] @ [7, 7, 7, 7, 7, 7, 7, 7, 7, 7, 7, 7, 7, 7, 7, 7]
                 @ [8, 8, 8, 8, 8, 8, 8, 8, 8, 8, 8, 8] @ [1, 2, 3] @ sample_tag"
        sample_crypto_env "\<lambda>i. True" ?rnd "[1, 2, 3]" "''secret''" True False "[1, 2, 3]"
        "[7, 7, 7, 7, 7, 7, 7, 7, 7, 7, 7, 7, 7, 7, 7, 7]" "[1, 2, 3] @ sample_tag"
        "[0, 17, 0, 0, 0, 7, 7, 7, 7, 7, 7, 7, 7, 7, 7, 7, 7, 7, 7, 7, 7, 7,
         8, 8, 8, 8, 8, 8, 8, 8, 8, 8, 8, 8,
         0, 0, 0, 0, 0, 0, 0, 0, 0, 0, 0, 0, 0, 0, 0, 0]"]
  from t [THEN conjunct2, THEN conjunct2] g
  have "handleDecrypt sample_crypto_env (\<lambda>i. True)
        [0, 17, 0, 0, 0, 7, 7, 7, 7, 7, 7, 7, 7, 7, 7, 7, 7, 7, 7, 7, 7, 7,
         8, 8, 8, 8, 8, 8, 8, 8, 8, 8, 8, 8,
         0, 0, 0, 0, 0, 0, 0, 0, 0, 0, 0, 0, 0, 0, 0, 0] ''secret''
     = [Progress 10 ''decrypt'' ''Unpacking data...'', Error GENERIC_ERROR ''DECRYPT_ERROR'']"
    by simp
  then show ?thesis by (simp add: a)
qed

text \<open>
  Packing followed by unpacking for a finite timestamp: under the same two hypotheses on
  the runtime, and a non-empty serialisation, the payload bytes and the sanitised
  metadata come back.
\<close>

lemma unpack_pack_finite:
  assumes "pm_timestamp meta = Finite t"
    and "parse_utf8 env (stringify_utf8 env (meta_to_json (sanitizeMeta meta)))
         = Some (meta_to_json (sanitizeMeta meta))"
    and "stringify_utf8 env (meta_to_json (sanitizeMeta meta)) \<noteq> []"
    and "length (stringify_utf8 env (meta_to_json (sanitizeMeta meta))) \<le> MAX_METADATA_LENGTH"
  shows "\<exists>packed. packPayload env D meta = Inr packed
           \<and> unpackPayload env packed = Inr (D, sanitizeMeta meta)"
  using assms unpack_of_pack [OF assms(4), of env D] sanitized_valid [OF assms(1)]
  by (simp add: packPayload_def Let_def)

text \<open>
  C9 (defect in the code). The claim promises that unpacking a packed payload succeeds
  for every metadata record. For a record whose timestamp is \<open>NaN\<close> it does not:
  \<open>packPayload\<close> keeps the timestamp (it is a number), \<open>JSON.stringify\<close> writes it as
  \<open>null\<close>, and \<open>unpackPayload\<close> rejects the container because the timestamp it reads
  back is not a number. The hypotheses say that the runtime parses what it has
  serialised and that the metadata is within the size limit.
\<close>

theorem C9_nan_timestamp_does_not_roundtrip:
  assumes "parse_utf8 env (stringify_utf8 env (meta_to_json (sanitizeMeta nan_metadata)))
           = Some (meta_to_json (sanitizeMeta nan_metadata))"
    and "length (stringify_utf8 env (meta_to_json (sanitizeMeta nan_metadata))) \<le> MAX_METADATA_LENGTH"
  shows "meta_to_json (sanitizeMeta nan_metadata)
           = JObject [(js ''type'', JString (js ''file'')), (js ''timestamp'', JNull)]
       \<and> (\<exists>packed. packPayload env D nan_metadata = Inr packed
              \<and> unpackPayload env packed = Inl InvalidPayloadFormat)"
proof -
  have j: "meta_to_json (sanitizeMeta nan_metadata)
           = JObject [(js ''type'', JString (js ''file'')), (js ''timestamp'', JNull)]"
    using js_keys by (simp add: meta_to_json_def sanitizeMeta_def nan_metadata_def number_to_json_def)
  have "\<not> isValidMetadata (meta_to_json (sanitizeMeta nan_metadata))"
    using nan_invalid by (simp add: nan_metadata_def)
  then have "\<exists>packed. packPayload env D nan_metadata = Inr packed
              \<and> unpackPayload env packed = Inl InvalidPayloadFormat"
    using assms unpack_of_pack [OF assms(2), of env D]
    by (simp add: packPayload_def Let_def)
  with j show ?thesis by simp
qed

theorem C9_nan_timestamp_does_not_roundtrip_witness:
  "\<exists>packed. packPayload sample_json_env [1, 2, 3] nan_metadata = Inr packed
      \<and> unpackPayload sample_json_env packed = Inl InvalidPayloadFormat"
proof -
  have j: "meta_to_json (sanitizeMeta nan_metadata)
           = JObject [(js ''type'', JString (js ''file'')), (js ''timestamp'', JNull)]"
    using js_keys by (simp add: meta_to_json_def sanitizeMeta_def nan_metadata_def number_to_json_def)
  have l: "length (ascii ''{\"type\":\"file\",\"timestamp\":null}'') \<le> MAX_METADATA_LENGTH"
    by (simp add: ascii_def MAX_METADATA_LENGTH_def)
  show ?thesis
    using C9_nan_timestamp_does_not_roundtrip [of sample_json_env "[1, 2, 3]"] l
    by (simp add: j sample_json_env_def)
qed

section \<open>The WAV decoder: results\<close>


declare walk_chunks.simps [simp del] read_samples.simps [simp del]

text \<open>
  C10 (defect in the code). The claim says that for a buffer of at least 44 bytes with
  the RIFF and WAVE markers every access stays inside the buffer, and that a data chunk
  whose declared size runs past the end of the file is rejected with a descriptive error
  or truncated. The 44-byte file \<open>wav_header_2\<close> is a canonical header whose data chunk
  declares 2 bytes and holds none. The chunk walk accepts it, and the sample loop asks
  the \<open>DataView\<close> for the 16-bit value at offset 44, outside the buffer: the call fails
  with the runtime's \<open>RangeError\<close>, not with one of the decoder's own errors, and
  nothing is truncated. With the two sample bytes present the same header decodes.
\<close>

theorem C10_truncated_data_chunk:
  "length wav_header_2 = 44
   \<and> fourcc wav_header_2 0 = [0x52, 0x49, 0x46, 0x46]
   \<and> fourcc wav_header_2 8 = [0x57, 0x41, 0x56, 0x45]
   \<and> walk_chunks wav_header_2 12
         \<lparr> cs_sampleRate = 0, cs_channels = 0, cs_bitsPerSample = 0,
           cs_dataOffset = 0, cs_dataSize = 0 \<rparr>
       = Inr \<lparr> cs_sampleRate = 44100, cs_channels = 1, cs_bitsPerSample = 16,
               cs_dataOffset = 44, cs_dataSize = 2 \<rparr>
   \<and> getInt16 wav_header_2 44 = Inl RangeError
   \<and> decodeWav wav_header_2 = Inl RangeError
   \<and> decodeWav (wav_header_2 @ [0xFE, 0xFF])
       = Inr \<lparr> samples = [- 2], sampleRate = 44100, channels = 1, bitsPerSample = 16 \<rparr>"
proof -
  have l: "length wav_header_2 = 44" by (simp add: wav_header_2_def)
  have r: "fourcc wav_header_2 0 = [0x52, 0x49, 0x46, 0x46]"
    "fourcc wav_header_2 8 = [0x57, 0x41, 0x56, 0x45]"
    by (simp_all add: fourcc_def char_code_at_def wav_header_2_def)
  have w: "walk_chunks wav_header_2 12
         \<lparr> cs_sampleRate = 0, cs_channels = 0, cs_bitsPerSample = 0,
           cs_dataOffset = 0, cs_dataSize = 0 \<rparr>
       = Inr \<lparr> cs_sampleRate = 44100, cs_channels = 1, cs_bitsPerSample = 16,
               cs_dataOffset = 44, cs_dataSize = 2 \<rparr>"
    by (simp add: walk_chunks.simps fourcc_def char_code_at_def wav_header_2_def getUint32_def
        getUint16_def read_fmt_def getUint32_le_def js_slice_def Let_def)
  have g: "getInt16 wav_header_2 44 = Inl RangeError"
    by (simp add: getInt16_def l)
  have s: "read_samples wav_header_2 44 2 0 [] = Inl RangeError"
    by (simp add: read_samples.simps g)
  have d: "decodeWav wav_header_2 = Inl RangeError"
    by (simp add: decodeWav_def l r w s)
  have l': "length (wav_header_2 @ [0xFE, 0xFF]) = 46" by (simp add: l)
  have r': "fourcc (wav_header_2 @ [0xFE, 0xFF]) 0 = [0x52, 0x49, 0x46, 0x46]"
    "fourcc (wav_header_2 @ [0xFE, 0xFF]) 8 = [0x57, 0x41, 0x56, 0x45]"
    by (simp_all add: fourcc_def char_code_at_def wav_header_2_def)
  have w': "walk_chunks (wav_header_2 @ [0xFE, 0xFF]) 12
         \<lparr> cs_sampleRate = 0, cs_channels = 0, cs_bitsPerSample = 0,
           cs_dataOffset = 0, cs_dataSize = 0 \<rparr>
       = Inr \<lparr> cs_sampleRate = 44100, cs_channels = 1, cs_bitsPerSample = 16,
               cs_dataOffset = 44, cs_dataSize = 2 \<rparr>"
    by (simp add: walk_chunks.simps fourcc_def char_code_at_def wav_header_2_def getUint32_def
        getUint16_def read_fmt_def getUint32_le_def js_slice_def Let_def)
  have s': "read_samples (wav_header_2 @ [0xFE, 0xFF]) 44 2 0 [] = Inr [- 2]"
    by (simp add: read_samples.simps getInt16_def l nth_append)
  have d': "decodeWav (wav_header_2 @ [0xFE, 0xFF])
       = Inr \<lparr> samples = [- 2], sampleRate = 44100, channels = 1, bitsPerSample = 16 \<rparr>"
    by (simp add: decodeWav_def l r' w' s')
  show ?thesis by (simp only: l r w g d d' simp_thms)
qed

end
